theory Spec2Isabelle
  imports Complex_Main "HOL-Library.Word"
begin

section \<open>The AVF player: container reader and frame demuxer\<close>

text \<open>
  The model follows \<^verbatim>\<open>avfplayer.py\<close>. A file is the list of its bytes, a
  frame chunk is a slice of it. NumPy arrays are lists (a matrix is a list of rows).
  An exception of the source is the \<open>Inl\<close> branch of a sum type.
\<close>

type_synonym byte = "8 word"

definition WIDTH :: nat where "WIDTH = 160"
definition HEIGHT :: nat where "HEIGHT = 192"
definition FRAME_SIZE_BYTES :: nat where "FRAME_SIZE_BYTES = 8704"
definition HEADER_SIZE :: nat where "HEADER_SIZE = 8192"

text \<open>
  \<open>ValueError\<close>: NumPy cannot broadcast a row of the wrong length into a row of the
  matrix. \<open>IndexError\<close>: an index outside a \<^verbatim>\<open>bytes\<close> object or an array.
\<close>

datatype error = ValueError | IndexError

text \<open>Python's \<^verbatim>\<open>range(n)\<close> and the slice \<^verbatim>\<open>xs[a:b]\<close> for \<open>0 \<le> a\<close>, \<open>0 \<le> b\<close>.\<close>

definition py_range :: "nat \<Rightarrow> nat list" where
  "py_range n = [0..<n]"

definition py_slice :: "'a list \<Rightarrow> nat \<Rightarrow> nat \<Rightarrow> 'a list" where
  "py_slice xs a b = take (b - a) (drop a xs)"

subsection \<open>Reading the file\<close>

text \<open>
  \<^verbatim>\<open>size = os.path.getsize(...); if size % FRAME_SIZE_BYTES != 0: f.seek(HEADER_SIZE);
  raw = f.read()\<close>. Seeking beyond the end of a file is allowed, and the read that
  follows returns no byte: \<open>drop\<close> does the same.
\<close>

definition read_raw :: "byte list \<Rightarrow> byte list" where
  "read_raw file =
     (let size = length file
      in if size mod FRAME_SIZE_BYTES \<noteq> 0 then drop HEADER_SIZE file else file)"

subsection \<open>Video extraction\<close>

text \<open>
  \<^verbatim>\<open>v[y] = np.frombuffer(s, dtype=np.uint8)\<close> for a row of 40 bytes: the assignment
  takes 40 bytes as they are, broadcasts a single byte over the row, and raises
  \<open>ValueError\<close> for every other length.
\<close>

definition assign_row :: "byte list \<Rightarrow> error + byte list" where
  "assign_row s =
     (if length s = 40 then Inr s
      else if length s = 1 then Inr (replicate 40 (hd s))
      else Inl ValueError)"

fun video_rows :: "byte list \<Rightarrow> nat list \<Rightarrow> byte list list \<Rightarrow> error + byte list list" where
  "video_rows chunk [] v = Inr v"
| "video_rows chunk (b # bs) v =
     (let bb = b * 128; y = b * 3 in
      case assign_row (py_slice chunk (bb + 1) (bb + 41)) of
        Inl e \<Rightarrow> Inl e
      | Inr r0 \<Rightarrow>
         (case assign_row (py_slice chunk (bb + 45) (bb + 85)) of
            Inl e \<Rightarrow> Inl e
          | Inr r1 \<Rightarrow>
             (case assign_row (py_slice chunk (bb + 88) (bb + 128)) of
                Inl e \<Rightarrow> Inl e
              | Inr r2 \<Rightarrow> video_rows chunk bs (v[y := r0, y + 1 := r1, y + 2 := r2]))))"

definition extract_video :: "byte list \<Rightarrow> error + byte list list" where
  "extract_video chunk = video_rows chunk (py_range 64) (replicate HEIGHT (replicate 40 0))"

subsection \<open>Audio extraction\<close>

text \<open>
  The cursor \<open>ptr\<close> and the tap array \<open>ac\<close> are the state of both loops; a
  \<^verbatim>\<open>break\<close> returns the state as it is. Every index written is below 512 (the
  largest is \<open>31 + 160 + 120\<close>) and every byte read is guarded by the length test
  before it, so no read or write of these loops can raise.
\<close>

fun audio_phase1 :: "nat \<Rightarrow> nat \<Rightarrow> byte list \<Rightarrow> nat list \<Rightarrow> nat \<times> byte list \<Rightarrow> nat \<times> byte list" where
  "audio_phase1 off1 off2 chunk [] (ptr, ac) = (ptr, ac)"
| "audio_phase1 off1 off2 chunk (y # ys) (ptr, ac) =
     (if ptr + 9 \<ge> length chunk then (ptr, ac)
      else audio_phase1 off1 off2 chunk ys
        (ptr + 10,
         ac[y := chunk ! ptr,
            y + off1 := chunk ! (ptr + 1),
            y + 32 + off1 := chunk ! (ptr + 2),
            y + 64 + off1 := chunk ! (ptr + 3),
            y + 96 + off1 := chunk ! (ptr + 4),
            y + 128 + off1 := chunk ! (ptr + 5),
            y + 160 + off1 := chunk ! (ptr + 6),
            y + off2 := chunk ! (ptr + 7),
            y + 32 + off2 := chunk ! (ptr + 8)]))"

fun audio_phase2 :: "bool \<Rightarrow> nat \<Rightarrow> byte list \<Rightarrow> nat list \<Rightarrow> nat \<times> byte list \<Rightarrow> nat \<times> byte list" where
  "audio_phase2 is_pal off2 chunk [] (ptr, ac) = (ptr, ac)"
| "audio_phase2 is_pal off2 chunk (y # ys) (ptr, ac) =
     (if ptr \<ge> length chunk then (ptr, ac)
      else
        (let ac1 = ac[y + 32 := chunk ! ptr]; ptr1 = ptr + 1 in
         if is_pal then
           (if ptr1 < length chunk
            then audio_phase2 is_pal off2 chunk ys (ptr1 + 1 + 8, ac1[y + 64 + off2 := chunk ! ptr1])
            else audio_phase2 is_pal off2 chunk ys (ptr1 + 8, ac1))
         else audio_phase2 is_pal off2 chunk ys (ptr1 + 9, ac1)))"

definition audio_phase3 :: "byte list \<Rightarrow> nat \<times> byte list \<Rightarrow> byte list" where
  "audio_phase3 chunk st =
     (case st of (ptr, ac) \<Rightarrow> if ptr < length chunk then ac[51 := chunk ! ptr] else ac)"

definition off1_of :: "bool \<Rightarrow> nat" where
  "off1_of is_pal = (if is_pal then 120 else 70)"

definition off2_of :: "bool \<Rightarrow> nat" where
  "off2_of is_pal = 52"

definition audio_len :: "bool \<Rightarrow> nat" where
  "audio_len is_pal = (if is_pal then 312 else 262)"

definition tap_array :: "bool \<Rightarrow> byte list \<Rightarrow> byte list" where
  "tap_array is_pal chunk =
     audio_phase3 chunk
       (audio_phase2 is_pal (off2_of is_pal) chunk (py_range 19)
          (audio_phase1 (off1_of is_pal) (off2_of is_pal) chunk (py_range 32)
             (8192, replicate 512 50)))"

definition extract_audio :: "bool \<Rightarrow> byte list \<Rightarrow> byte list" where
  "extract_audio is_pal chunk = take (audio_len is_pal) (tap_array is_pal chunk)"

subsection \<open>The demux loop\<close>

fun demux_loop ::
  "bool \<Rightarrow> byte list \<Rightarrow> nat list \<Rightarrow> byte list list list \<times> byte list list
     \<Rightarrow> error + (byte list list list \<times> byte list list)" where
  "demux_loop is_pal raw [] acc = Inr acc"
| "demux_loop is_pal raw (i # is) (video_frames, audio_chunks) =
     (let base = i * FRAME_SIZE_BYTES;
          chunk = py_slice raw base (base + FRAME_SIZE_BYTES)
      in case extract_video chunk of
           Inl e \<Rightarrow> Inl e
         | Inr v \<Rightarrow>
             demux_loop is_pal raw is
               (video_frames @ [v], audio_chunks @ [extract_audio is_pal chunk]))"

definition num_frames_of :: "byte list \<Rightarrow> nat" where
  "num_frames_of raw = length raw div FRAME_SIZE_BYTES"

definition demux :: "bool \<Rightarrow> byte list \<Rightarrow> error + (byte list list list \<times> byte list list)" where
  "demux is_pal file =
     (let raw = read_raw file
      in demux_loop is_pal raw (py_range (num_frames_of raw)) ([], []))"

section \<open>The audio track assembler\<close>

text \<open>
  A Python float is an IEEE 754 double: every decimal literal and the result of every
  arithmetic operation is rounded to the nearest double, ties to even. \<open>fl64\<close> is
  that rounding: the significand is the integer nearest to \<open>x / 2 ^ e\<close>, where
  \<open>e = \<lfloor>log 2 \<bar>x\<bar>\<rfloor> - 52\<close>. The exponent range is not bounded (no overflow and no
  subnormal numbers): the doubles of the scalar computations below are far from both.
  A number that is a double already (a small integer, 0.5, 15.0, 255) is written
  without \<open>fl64\<close>.
\<close>

definition round_even :: "real \<Rightarrow> int" where
  "round_even y =
     (let f = \<lfloor>y\<rfloor>; d = y - of_int f
      in if d < 1 / 2 then f else if d > 1 / 2 then f + 1 else if even f then f else f + 1)"

definition fl64 :: "real \<Rightarrow> real" where
  "fl64 x =
     (if x = 0 then 0
      else (let e = \<lfloor>log 2 \<bar>x\<bar>\<rfloor> - 52
            in of_int (round_even (x / 2 powr of_int e)) * 2 powr of_int e))"

text \<open>
  \<^verbatim>\<open>math.cos\<close> and \<^verbatim>\<open>math.sin\<close> are functions of the C library, from doubles
  to doubles; their results are not fixed by IEEE 754, so the library is a parameter
  of the palette. \<open>libm_rounded\<close> is the library that returns the double nearest to
  the exact value.
\<close>

record math_module =
  math_cos :: "real \<Rightarrow> real"
  math_sin :: "real \<Rightarrow> real"

definition libm_rounded :: math_module where
  "libm_rounded = \<lparr> math_cos = (\<lambda>x. fl64 (cos x)), math_sin = (\<lambda>x. fl64 (sin x)) \<rparr>"

text \<open>
  \<^verbatim>\<open>int(x)\<close> truncates towards zero.
  \<^verbatim>\<open>np.clip(a, lo, hi)\<close> is \<^verbatim>\<open>minimum(hi, maximum(a, lo))\<close>. In the array
  arithmetic of the assembler (centring, interpolation, gain) and of the blend the
  floats are real numbers and the operations exact.
\<close>

definition py_int :: "real \<Rightarrow> int" where
  "py_int x = (if 0 \<le> x then \<lfloor>x\<rfloor> else \<lceil>x\<rceil>)"

definition np_clip :: "real \<Rightarrow> real \<Rightarrow> real \<Rightarrow> real" where
  "np_clip x lo hi = min hi (max x lo)"

text \<open>
  \<^verbatim>\<open>np.linspace(0, 1, n)\<close>: no point for \<open>n = 0\<close>, the point 0 for \<open>n = 1\<close>, and
  the \<open>n\<close> points \<open>i / (n - 1)\<close> otherwise.
\<close>

definition linspace01 :: "nat \<Rightarrow> real list" where
  "linspace01 n = (if n = 1 then [0] else map (\<lambda>i. real i / real (n - 1)) [0..<n])"

text \<open>
  \<^verbatim>\<open>np.interp(x, xp, fp)\<close>: the piecewise linear interpolant through the points
  \<open>(xp, fp)\<close>, constant to the left of the first point and to the right of the last.
  It raises \<open>ValueError\<close> when \<open>xp\<close> is empty or \<open>fp\<close> has another length.
\<close>

fun interp1 :: "real \<Rightarrow> real list \<Rightarrow> real list \<Rightarrow> real" where
  "interp1 x (x0 # x1 # xs) (f0 # f1 # fs) =
     (if x \<le> x0 then f0
      else if x < x1 then (f1 - f0) / (x1 - x0) * (x - x0) + f0
      else interp1 x (x1 # xs) (f1 # fs))"
| "interp1 x [x0] [f0] = f0"
| "interp1 x xp fp = 0"

definition np_interp :: "real list \<Rightarrow> real list \<Rightarrow> real list \<Rightarrow> error + real list" where
  "np_interp x xp fp =
     (if xp = [] \<or> length fp \<noteq> length xp then Inl ValueError
      else Inr (map (\<lambda>t. interp1 t xp fp) x))"

text \<open>
  \<^verbatim>\<open>astype(np.int16)\<close> of a float: truncation towards zero, and the 16-bit
  two's-complement wrap-around for a value out of range.
\<close>

definition to_int16 :: "real \<Rightarrow> int" where
  "to_int16 x = (py_int x + 32768) mod 65536 - 32768"

definition fps_of :: "bool \<Rightarrow> real" where
  "fps_of is_pal = (if is_pal then fl64 49.86 else fl64 59.92)"

text \<open>The sound array: one sample per frame, or \<open>mix_chans\<close> equal samples per frame.\<close>

datatype pcm = Mono "int list" | Multi "int list list"

definition raw_audio_of :: "byte list list \<Rightarrow> real list" where
  "raw_audio_of audio_chunks =
     (if audio_chunks \<noteq> [] then map (\<lambda>b. real (unat b)) (concat audio_chunks)
      else replicate 1000 0)"

definition center :: "real \<Rightarrow> real" where
  "center x = np_clip x 0 100 - 50.0"

text \<open>
  \<^verbatim>\<open>vid_dur = num_frames / self.fps; tgt_samples = int(vid_dur * self.mix_freq)\<close>:
  both integers are converted to doubles, and both operations round.
\<close>

definition tgt_samples_of :: "bool \<Rightarrow> nat \<Rightarrow> nat \<Rightarrow> int" where
  "tgt_samples_of is_pal mix_freq num_frames =
     (let vid_dur = fl64 (fl64 (real num_frames) / fps_of is_pal)
      in py_int (fl64 (vid_dur * fl64 (real mix_freq))))"

definition interp_audio :: "bool \<Rightarrow> nat \<Rightarrow> nat \<Rightarrow> byte list list \<Rightarrow> error + real list" where
  "interp_audio is_pal mix_freq num_frames audio_chunks =
     (let raw_audio = map center (raw_audio_of audio_chunks);
          tgt_samples = tgt_samples_of is_pal mix_freq num_frames
      in if tgt_samples < 0 then Inl ValueError
         else np_interp (linspace01 (nat tgt_samples)) (linspace01 (length raw_audio)) raw_audio)"

definition resample :: "bool \<Rightarrow> nat \<Rightarrow> nat \<Rightarrow> byte list list \<Rightarrow> error + int list" where
  "resample is_pal mix_freq num_frames audio_chunks =
     (case interp_audio is_pal mix_freq num_frames audio_chunks of
        Inl e \<Rightarrow> Inl e
      | Inr resampled \<Rightarrow>
          Inr (map (\<lambda>r. to_int16 (np_clip (r * 500.0) (- 32000) 32000)) resampled))"

definition channel_map :: "nat \<Rightarrow> int list \<Rightarrow> pcm" where
  "channel_map mix_chans resampled =
     (if mix_chans > 1 then Multi (map (\<lambda>s. replicate mix_chans s) resampled)
      else Mono resampled)"

text \<open>All the samples of a sound array, of every channel.\<close>

definition samples_of :: "pcm \<Rightarrow> int list" where
  "samples_of final = (case final of Multi rows \<Rightarrow> concat rows | Mono xs \<Rightarrow> xs)"

definition viz_of :: "pcm \<Rightarrow> int list" where
  "viz_of final = (case final of Multi rows \<Rightarrow> map (\<lambda>r. r ! 0) rows | Mono xs \<Rightarrow> xs)"

text \<open>
  \<^verbatim>\<open>_load_process_full\<close>: the video frames, the sound array and the first channel
  of the sound array. The mixer's sample rate and channel count are parameters.
\<close>

definition load_process_full ::
  "bool \<Rightarrow> nat \<Rightarrow> nat \<Rightarrow> byte list \<Rightarrow> error + (byte list list list \<times> pcm \<times> int list)" where
  "load_process_full is_pal mix_freq mix_chans file =
     (case demux is_pal file of
        Inl e \<Rightarrow> Inl e
      | Inr (video_frames, audio_chunks) \<Rightarrow>
          (case resample is_pal mix_freq (num_frames_of (read_raw file)) audio_chunks of
             Inl e \<Rightarrow> Inl e
           | Inr resampled \<Rightarrow>
               (let final = channel_map mix_chans resampled
                in Inr (video_frames, final, viz_of final))))"

section \<open>The palette synthesizer\<close>

text \<open>
  \<^verbatim>\<open>_generate_gtia_palette\<close>. The table is a list of 256 triples. The values stored
  lie in 0..255 (the grey values are \<open>17 * luma\<close>, the colour values are clamped), so
  the \<^verbatim>\<open>uint8\<close> storage keeps them as they are. \<open>gtia_color\<close> is the body of
  the inner colour loop, \<open>gtia_gray\<close> the body of the grey loop. Both compute in
  doubles, as the source does: \<open>fl64\<close> stands at every literal that is not a double
  and at every operation.
\<close>

type_synonym rgb = "int \<times> int \<times> int"

definition gtia_gray :: "nat \<Rightarrow> rgb" where
  "gtia_gray luma = (let val = py_int (fl64 (fl64 (real luma / 15.0) * 255)) in (val, val, val))"

definition gtia_color :: "math_module \<Rightarrow> real \<Rightarrow> real \<Rightarrow> nat \<Rightarrow> nat \<Rightarrow> rgb" where
  "gtia_color math phase_shift saturation chroma luma =
     (let angle = fl64 (fl64 ((real chroma - 1) * fl64 (fl64 (2 * fl64 pi) / 15.0)) + phase_shift);
          y = fl64 (real luma / 15.0);
          sat = fl64 (saturation * 0.5);
          u = fl64 (sat * math_cos math angle);
          v = fl64 (sat * math_sin math angle);
          r = fl64 (y + fl64 (fl64 1.140 * v));
          g = fl64 (fl64 (y - fl64 (fl64 0.395 * u)) - fl64 (fl64 0.581 * v));
          b = fl64 (y + fl64 (fl64 2.032 * u))
      in (max 0 (min 255 (py_int (fl64 (r * 255)))),
          max 0 (min 255 (py_int (fl64 (g * 255)))),
          max 0 (min 255 (py_int (fl64 (b * 255))))))"

definition palette_index :: "nat \<Rightarrow> nat \<Rightarrow> nat" where
  "palette_index chroma luma = or (push_bit 4 chroma) luma"

definition generate_gtia_palette :: "math_module \<Rightarrow> real \<Rightarrow> real \<Rightarrow> rgb list" where
  "generate_gtia_palette math phase_shift saturation =
     (let palette0 = replicate 256 (0, 0, 0);
          palette1 = foldl (\<lambda>palette luma. palette[luma := gtia_gray luma]) palette0 (py_range 16)
      in foldl (\<lambda>palette chroma.
                  foldl (\<lambda>palette luma.
                           palette[palette_index chroma luma :=
                                     gtia_color math phase_shift saturation chroma luma])
                    palette (py_range 16))
           palette1 [1..<16])"

text \<open>The two colour loops as one loop over the pairs \<open>(chroma, luma)\<close>, in the same order.\<close>

definition color_loops :: "math_module \<Rightarrow> real \<Rightarrow> real \<Rightarrow> rgb list \<Rightarrow> rgb list" where
  "color_loops math ph sat p =
     foldl (\<lambda>p cl. p[palette_index (fst cl) (snd cl) := gtia_color math ph sat (fst cl) (snd cl)])
       p (List.product [1..<16] (py_range 16))"

text \<open>
  The colour entry as the specification words it, over the real numbers: each channel
  scaled by 255, rounded to the nearest integer and clamped to \<open>[0, 255]\<close>.
\<close>

definition spec_color :: "real \<Rightarrow> real \<Rightarrow> nat \<Rightarrow> nat \<Rightarrow> rgb" where
  "spec_color phase_shift saturation chroma luma =
     (let angle = (real chroma - 1) * (2 * pi / 15) + phase_shift;
          y = real luma / 15;
          sat = saturation * 0.5;
          u = sat * cos angle;
          v = sat * sin angle;
          r = y + 1.140 * v;
          g = y - 0.395 * u - 0.581 * v;
          b = y + 2.032 * u
      in (max 0 (min 255 (round (r * 255))),
          max 0 (min 255 (round (g * 255))),
          max 0 (min 255 (round (b * 255)))))"

section \<open>The render pipeline, up to the horizontal blend\<close>

text \<open>
  A pixel is a triple of \<^verbatim>\<open>float32\<close> channels, a picture a list of rows of pixels.
  \<open>evens\<close> is the slice \<^verbatim>\<open>[0::2]\<close>, \<open>odds\<close> the slice \<^verbatim>\<open>[1::2]\<close>.
\<close>

type_synonym pixel = "real \<times> real \<times> real"

fun evens :: "'a list \<Rightarrow> 'a list" where
  "evens [] = []"
| "evens [x] = [x]"
| "evens (x # y # xs) = x # evens xs"

definition odds :: "'a list \<Rightarrow> 'a list" where
  "odds xs = evens (drop 1 xs)"

text \<open>
  \<^verbatim>\<open>np.stack([(line>>4)&0xF, line&0xF], axis=-1).reshape(h_proc, 80)\<close>: the two
  nibbles of each byte, the high one first. The reshape raises \<open>ValueError\<close> unless the
  rows have 40 bytes.
\<close>

definition unpack_nibbles :: "byte list list \<Rightarrow> error + nat list list" where
  "unpack_nibbles lines =
     (if list_all (\<lambda>row. length row = 40) lines
      then Inr (map (\<lambda>row. concat (map (\<lambda>b. [unat (and (drop_bit 4 b) 15), unat (and b 15)]) row)) lines)
      else Inl ValueError)"

definition decode_frame_gtia :: "rgb list \<Rightarrow> nat list list \<Rightarrow> nat list list \<Rightarrow> rgb list list" where
  "decode_frame_gtia palette luma_block chroma_block =
     map2 (\<lambda>lrow crow. map2 (\<lambda>l c. palette ! (or (push_bit 4 c) l)) lrow crow)
       luma_block chroma_block"

definition to_float32 :: "rgb \<Rightarrow> pixel" where
  "to_float32 p = (case p of (r, g, b) \<Rightarrow> (real_of_int r, real_of_int g, real_of_int b))"

definition pixel_add :: "pixel \<Rightarrow> pixel \<Rightarrow> pixel" where
  "pixel_add p q = (case p of (r, g, b) \<Rightarrow> case q of (r', g', b') \<Rightarrow> (r + r', g + g', b + b'))"

definition pixel_scale :: "pixel \<Rightarrow> real \<Rightarrow> pixel" where
  "pixel_scale p k = (case p of (r, g, b) \<Rightarrow> (r * k, g * k, b * k))"

text \<open>\<^verbatim>\<open>np.repeat(a, 2, axis=1)\<close>: every pixel of a row twice.\<close>

definition repeat2 :: "'a list \<Rightarrow> 'a list" where
  "repeat2 row = concat (map (\<lambda>p. [p, p]) row)"

text \<open>
  The blend of one row: \<^verbatim>\<open>blended = zeros; blended[1:] = (row[1:] + row[:-1]) * 0.5;
  blended[0] = row[0]\<close>. On a row without a pixel the last assignment raises \<open>IndexError\<close>.
\<close>

definition blend_row :: "pixel list \<Rightarrow> error + pixel list" where
  "blend_row row =
     (let blended = replicate (length row) (0, 0, 0);
          blended1 = take 1 blended @ map2 (\<lambda>p q. pixel_scale (pixel_add p q) 0.5) (drop 1 row) (butlast row)
      in if row = [] then Inl IndexError else Inr (blended1[0 := row ! 0]))"

fun blend_rows :: "pixel list list \<Rightarrow> error + pixel list list" where
  "blend_rows [] = Inr []"
| "blend_rows (row # rows) =
     (case blend_row row of
        Inl e \<Rightarrow> Inl e
      | Inr b \<Rightarrow> (case blend_rows rows of Inl e \<Rightarrow> Inl e | Inr bs \<Rightarrow> Inr (b # bs)))"

definition rgb_wide_of :: "rgb list \<Rightarrow> bool \<Rightarrow> byte list list \<Rightarrow> error + pixel list list" where
  "rgb_wide_of palette is_pal vf =
     (let chroma_line = (if is_pal then evens vf else odds vf);
          luma_line = (if is_pal then odds vf else evens vf);
          h_proc = min (length chroma_line) (length luma_line)
      in case unpack_nibbles (take h_proc chroma_line) of
           Inl e \<Rightarrow> Inl e
         | Inr c_unp \<Rightarrow>
            (case unpack_nibbles (take h_proc luma_line) of
               Inl e \<Rightarrow> Inl e
             | Inr l_unp \<Rightarrow>
                (let rgb_base = map (map to_float32) (decode_frame_gtia palette l_unp c_unp)
                 in Inr (map repeat2 rgb_base))))"

definition render_blend :: "rgb list \<Rightarrow> bool \<Rightarrow> bool \<Rightarrow> byte list list \<Rightarrow> error + pixel list list" where
  "render_blend palette is_pal enable_blending vf =
     (case rgb_wide_of palette is_pal vf of
        Inl e \<Rightarrow> Inl e
      | Inr rgb_wide \<Rightarrow> if enable_blending then blend_rows rgb_wide else Inr rgb_wide)"

section \<open>The player and its input events\<close>

text \<open>
  The fields of \<^verbatim>\<open>self\<close> that the decoding and the event handling read or write.
  The mixer's parameters and the video standard are parameters of the constructor.
\<close>

record player =
  self_mix_freq :: nat
  self_mix_chans :: nat
  self_is_pal :: bool
  self_fps :: real
  self_debug_mode :: bool
  self_looping :: bool
  self_show_scanlines :: bool
  self_enable_blending :: bool
  self_phase_shift :: real
  self_saturation :: real
  self_palette :: "rgb list"
  self_video_frames :: "byte list list list"
  self_final_sound_obj :: pcm
  self_viz_array :: "int list"

definition init_player ::
  "math_module \<Rightarrow> byte list \<Rightarrow> bool \<Rightarrow> bool \<Rightarrow> nat \<Rightarrow> nat \<Rightarrow> error + player" where
  "init_player math file is_pal debug mix_freq mix_chans =
     (case load_process_full is_pal mix_freq mix_chans file of
        Inl e \<Rightarrow> Inl e
      | Inr (video_frames, snd_obj, viz) \<Rightarrow>
          Inr \<lparr> self_mix_freq = mix_freq, self_mix_chans = mix_chans, self_is_pal = is_pal,
                self_fps = fps_of is_pal, self_debug_mode = debug, self_looping = False,
                self_show_scanlines = True, self_enable_blending = True,
                self_phase_shift = fl64 1.8, self_saturation = fl64 0.15,
                self_palette = generate_gtia_palette math (fl64 1.8) (fl64 0.15),
                self_video_frames = video_frames, self_final_sound_obj = snd_obj,
                self_viz_array = viz \<rparr>)"

text \<open>
  The event loop of \<^verbatim>\<open>run\<close>: its local variables, and the handling of one event.
  \<open>now\<close> is the value of \<^verbatim>\<open>pygame.time.get_ticks()\<close> and \<open>shift\<close> says whether
  \<^verbatim>\<open>pygame.key.get_mods()\<close> has a shift key, at that event.
\<close>

datatype key = K_ESCAPE | K_l | K_d | K_s | K_b | K_SPACE | K_LEFTBRACKET | K_RIGHTBRACKET | K_OTHER

datatype event = QUIT | KEYDOWN key | OTHER_EVENT

record run_locals =
  running :: bool
  loop_active :: bool
  paused :: bool
  start_ticks :: int
  pause_start :: int

definition live_tuning :: "math_module \<Rightarrow> bool \<Rightarrow> key \<Rightarrow> player \<Rightarrow> player" where
  "live_tuning math shift k p =
     (let p1 =
        (if shift then
           (if k = K_RIGHTBRACKET
            then p\<lparr>self_saturation := min 2.0 (fl64 (self_saturation p + fl64 0.05))\<rparr>
            else if k = K_LEFTBRACKET
            then p\<lparr>self_saturation := max 0.0 (fl64 (self_saturation p - fl64 0.05))\<rparr>
            else p)
         else
           (if k = K_LEFTBRACKET
            then p\<lparr>self_phase_shift := fl64 (self_phase_shift p - fl64 0.05)\<rparr>
            else if k = K_RIGHTBRACKET
            then p\<lparr>self_phase_shift := fl64 (self_phase_shift p + fl64 0.05)\<rparr>
            else p));
          regen = (k = K_RIGHTBRACKET \<or> k = K_LEFTBRACKET)
      in if regen
         then p1\<lparr>self_palette :=
                  generate_gtia_palette math (self_phase_shift p1) (self_saturation p1)\<rparr>
         else p1)"

definition handle_key :: "int \<Rightarrow> key \<Rightarrow> player \<times> run_locals \<Rightarrow> player \<times> run_locals" where
  "handle_key now k st =
     (case st of (p, l) \<Rightarrow>
        (case k of
           K_ESCAPE \<Rightarrow> (p, l\<lparr>running := False, loop_active := False\<rparr>)
         | K_l \<Rightarrow> (p\<lparr>self_looping := \<not> self_looping p\<rparr>, l)
         | K_d \<Rightarrow> (p\<lparr>self_debug_mode := \<not> self_debug_mode p\<rparr>, l)
         | K_s \<Rightarrow> (p\<lparr>self_show_scanlines := \<not> self_show_scanlines p\<rparr>, l)
         | K_b \<Rightarrow> (p\<lparr>self_enable_blending := \<not> self_enable_blending p\<rparr>, l)
         | K_SPACE \<Rightarrow>
             (if paused l
              then (p, l\<lparr>start_ticks := start_ticks l + (now - pause_start l), paused := False\<rparr>)
              else (p, l\<lparr>pause_start := now, paused := True\<rparr>))
         | _ \<Rightarrow> (p, l)))"

definition handle_event ::
  "math_module \<Rightarrow> int \<times> bool \<times> event \<Rightarrow> player \<times> run_locals \<Rightarrow> player \<times> run_locals" where
  "handle_event math ev st =
     (case ev of (now, shift, e) \<Rightarrow>
        (case e of
           QUIT \<Rightarrow> (fst st, (snd st)\<lparr>running := False, loop_active := False\<rparr>)
         | KEYDOWN k \<Rightarrow>
             (case handle_key now k st of (p, l) \<Rightarrow> (live_tuning math shift k p, l))
         | OTHER_EVENT \<Rightarrow> st))"

definition handle_events ::
  "math_module \<Rightarrow> (int \<times> bool \<times> event) list \<Rightarrow> player \<times> run_locals \<Rightarrow> player \<times> run_locals" where
  "handle_events math evs st = foldl (\<lambda>s ev. handle_event math ev s) st evs"

subsection \<open>What the demuxer computes, stated apart from the loops\<close>

text \<open>
  These definitions follow the specification's words, not the loops: sub-block \<open>b\<close>
  of a chunk gives the rows \<open>3b\<close>, \<open>3b + 1\<close> and \<open>3b + 2\<close> of the matrix, chunk
  \<open>i\<close> of the data is its bytes from \<open>i * 8704\<close>, and the frame count is the
  formula of the specification over the integers.
\<close>

definition sub_rows :: "byte list \<Rightarrow> byte list list \<Rightarrow> nat \<Rightarrow> byte list list" where
  "sub_rows chunk v b =
     v[b * 3 := py_slice chunk (b * 128 + 1) (b * 128 + 41),
       b * 3 + 1 := py_slice chunk (b * 128 + 45) (b * 128 + 85),
       b * 3 + 2 := py_slice chunk (b * 128 + 88) (b * 128 + 128)]"

definition video_matrix :: "byte list \<Rightarrow> byte list list" where
  "video_matrix chunk = foldl (sub_rows chunk) (replicate HEIGHT (replicate 40 0)) (py_range 64)"

definition chunk_of :: "byte list \<Rightarrow> nat \<Rightarrow> byte list" where
  "chunk_of raw i = py_slice raw (i * FRAME_SIZE_BYTES) (i * FRAME_SIZE_BYTES + FRAME_SIZE_BYTES)"

definition sub_block :: "byte list \<Rightarrow> nat \<Rightarrow> byte list" where
  "sub_block chunk b = py_slice chunk (128 * b) (128 * b + 128)"

definition spec_frame_count :: "nat \<Rightarrow> int" where
  "spec_frame_count file_size =
     (int file_size - (if file_size mod 8704 \<noteq> 0 then 8192 else 0)) div 8704"

text \<open>
  The first audio loop, as the specification words it: iteration \<open>y\<close> has its
  cursor at \<open>8192 + 10 * y\<close> and assigns the 9 bytes there to the indices \<open>y\<close>,
  \<open>y + off1\<close>, \<open>y + 32 + off1\<close>, \<open>y + 64 + off1\<close>, \<open>y + 96 + off1\<close>, \<open>y + 128 + off1\<close>,
  \<open>y + 160 + off1\<close>, \<open>y + off2\<close>, \<open>y + 32 + off2\<close>, in that order.
\<close>

definition phase1_step :: "nat \<Rightarrow> nat \<Rightarrow> byte list \<Rightarrow> byte list \<Rightarrow> nat \<Rightarrow> byte list" where
  "phase1_step off1 off2 chunk ac y =
     (let cursor = 8192 + 10 * y in
      ac[y := chunk ! cursor,
         y + off1 := chunk ! (cursor + 1),
         y + 32 + off1 := chunk ! (cursor + 2),
         y + 64 + off1 := chunk ! (cursor + 3),
         y + 96 + off1 := chunk ! (cursor + 4),
         y + 128 + off1 := chunk ! (cursor + 5),
         y + 160 + off1 := chunk ! (cursor + 6),
         y + off2 := chunk ! (cursor + 7),
         y + 32 + off2 := chunk ! (cursor + 8)])"

text \<open>
  The indices of the tap array that the three audio steps assign, in the order of the
  assignments. The functions follow the control flow of the loops and leave the array
  out.
\<close>

fun phase1_indices :: "nat \<Rightarrow> nat \<Rightarrow> byte list \<Rightarrow> nat list \<Rightarrow> nat \<Rightarrow> nat list" where
  "phase1_indices off1 off2 chunk [] ptr = []"
| "phase1_indices off1 off2 chunk (y # ys) ptr =
     (if ptr + 9 \<ge> length chunk then []
      else [y, y + off1, y + 32 + off1, y + 64 + off1, y + 96 + off1, y + 128 + off1,
            y + 160 + off1, y + off2, y + 32 + off2]
           @ phase1_indices off1 off2 chunk ys (ptr + 10))"

fun phase2_indices :: "bool \<Rightarrow> nat \<Rightarrow> byte list \<Rightarrow> nat list \<Rightarrow> nat \<Rightarrow> nat list" where
  "phase2_indices is_pal off2 chunk [] ptr = []"
| "phase2_indices is_pal off2 chunk (y # ys) ptr =
     (if ptr \<ge> length chunk then []
      else if is_pal then
        (if ptr + 1 < length chunk
         then [y + 32, y + 64 + off2] @ phase2_indices is_pal off2 chunk ys (ptr + 1 + 1 + 8)
         else [y + 32] @ phase2_indices is_pal off2 chunk ys (ptr + 1 + 8))
      else [y + 32] @ phase2_indices is_pal off2 chunk ys (ptr + 1 + 9))"

definition written_indices :: "bool \<Rightarrow> byte list \<Rightarrow> nat list" where
  "written_indices is_pal chunk =
     (let st1 = audio_phase1 (off1_of is_pal) (off2_of is_pal) chunk (py_range 32)
                  (8192, replicate 512 50);
          st2 = audio_phase2 is_pal (off2_of is_pal) chunk (py_range 19) st1
      in phase1_indices (off1_of is_pal) (off2_of is_pal) chunk (py_range 32) 8192
         @ phase2_indices is_pal (off2_of is_pal) chunk (py_range 19) (fst st1)
         @ (if fst st2 < length chunk then [51] else []))"

section \<open>Properties\<close>

subsection \<open>Rounding to doubles\<close>

text \<open>
  The rounding is within half a unit of the last place, so within a relative error
  of \<open>1 / 2 ^ 53\<close>; \<open>fl64_eval\<close> computes it once the binary exponent is known.
\<close>

lemma round_even_near: "\<bar>of_int (round_even y) - y\<bar> \<le> 1 / 2"
proof -
  have "of_int \<lfloor>y\<rfloor> \<le> y" "y < of_int \<lfloor>y\<rfloor> + 1" by linarith+
  then show ?thesis
    by (auto simp: round_even_def Let_def)
qed

lemma fl64_zero: "fl64 0 = 0"
  by (simp add: fl64_def)

lemma fl64_within: "\<bar>fl64 x - x\<bar> \<le> \<bar>x\<bar> / 2 ^ 53"
proof (cases "x = 0")
  case True
  then show ?thesis by (simp add: fl64_def)
next
  case False
  define e where "e = \<lfloor>log 2 \<bar>x\<bar>\<rfloor> - 52"
  define s where "s = (2::real) powr of_int e"
  have s0: "0 < s" by (simp add: s_def)
  have fl: "fl64 x = of_int (round_even (x / s)) * s"
    using False by (simp add: fl64_def Let_def e_def s_def)
  have "fl64 x - x = (of_int (round_even (x / s)) - x / s) * s"
    using s0 by (simp add: fl algebra_simps)
  then have "\<bar>fl64 x - x\<bar> = \<bar>of_int (round_even (x / s)) - x / s\<bar> * s"
    using s0 by (simp add: abs_mult)
  also have "\<dots> \<le> 1 / 2 * s"
    using round_even_near [of "x / s"] s0 by (intro mult_right_mono) simp_all
  finally have b: "\<bar>fl64 x - x\<bar> \<le> s / 2" by simp
  have "real_of_int \<lfloor>log 2 \<bar>x\<bar>\<rfloor> \<le> log 2 \<bar>x\<bar>" by simp
  then have "(2::real) powr real_of_int \<lfloor>log 2 \<bar>x\<bar>\<rfloor> \<le> 2 powr log 2 \<bar>x\<bar>"
    by (intro powr_mono) simp_all
  also have "(2::real) powr log 2 \<bar>x\<bar> = \<bar>x\<bar>" using False by simp
  finally have "(2::real) powr real_of_int \<lfloor>log 2 \<bar>x\<bar>\<rfloor> \<le> \<bar>x\<bar>" .
  moreover have "(2::real) powr real_of_int \<lfloor>log 2 \<bar>x\<bar>\<rfloor> = s * 2 ^ 52"
  proof -
    have "real_of_int \<lfloor>log 2 \<bar>x\<bar>\<rfloor> = of_int e + 52" by (simp add: e_def)
    then have "(2::real) powr real_of_int \<lfloor>log 2 \<bar>x\<bar>\<rfloor> = 2 powr (of_int e) * 2 powr 52"
      by (simp only: powr_add)
    then show ?thesis by (simp add: s_def)
  qed
  ultimately have "s * 2 ^ 52 \<le> \<bar>x\<bar>" by simp
  then have "s / 2 \<le> \<bar>x\<bar> / 2 ^ 53" by (simp add: field_simps)
  then show ?thesis using b by linarith
qed

lemma fl64_rel: "\<exists>d. \<bar>d\<bar> \<le> 1 / 2 ^ 53 \<and> fl64 x = x * (1 + d)"
proof (cases "x = 0")
  case True
  then show ?thesis by (intro exI [of _ 0]) (simp add: fl64_zero)
next
  case False
  define d where "d = (fl64 x - x) / x"
  have "\<bar>d\<bar> = \<bar>fl64 x - x\<bar> / \<bar>x\<bar>" by (simp add: d_def)
  also have "\<dots> \<le> (\<bar>x\<bar> / 2 ^ 53) / \<bar>x\<bar>"
    using fl64_within [of x] by (intro divide_right_mono) simp_all
  also have "\<dots> = 1 / 2 ^ 53" using False by simp
  finally have "\<bar>d\<bar> \<le> 1 / 2 ^ 53" .
  moreover have "fl64 x = x * (1 + d)" using False by (simp add: d_def field_simps)
  ultimately show ?thesis by blast
qed

lemma fl64_nonneg: "0 \<le> x \<Longrightarrow> 0 \<le> fl64 x"
proof -
  assume x: "0 \<le> x"
  obtain d where d: "\<bar>d\<bar> \<le> 1 / 2 ^ 53" "fl64 x = x * (1 + d)" using fl64_rel by blast
  have "0 \<le> 1 + d" using d(1) by (simp add: abs_le_iff) 
  then show ?thesis using x d(2) by simp
qed

lemma fl64_pos: "0 < x \<Longrightarrow> 0 < fl64 x"
proof -
  assume x: "0 < x"
  obtain d where d: "\<bar>d\<bar> \<le> 1 / 2 ^ 53" "fl64 x = x * (1 + d)" using fl64_rel by blast
  have "- (1 / 2 ^ 53) \<le> d" using d(1) by (simp add: abs_le_iff)
  then have "0 < 1 + d" by simp
  then show ?thesis using x d(2) by simp
qed

lemma factor_bounds:
  fixes a b c d e :: real
  assumes "\<bar>a\<bar> \<le> 1 / 2 ^ 53" "\<bar>b\<bar> \<le> 1 / 2 ^ 53" "\<bar>c\<bar> \<le> 1 / 2 ^ 53"
    "\<bar>d\<bar> \<le> 1 / 2 ^ 53" "\<bar>e\<bar> \<le> 1 / 2 ^ 53"
  shows "\<bar>(1 + a) * (1 + b) * (1 + c) * (1 + d) / (1 + e) - 1\<bar> \<le> 1 / 2 ^ 50"
proof -
  define l :: real where "l = 1 - 1 / 2 ^ 53"
  define u :: real where "u = 1 + 1 / 2 ^ 53"
  have l0: "0 < l" by (simp add: l_def)
  have lu: "l \<le> u" by (simp add: l_def u_def)
  have r: "l \<le> 1 + a" "1 + a \<le> u" "l \<le> 1 + b" "1 + b \<le> u" "l \<le> 1 + c" "1 + c \<le> u"
    "l \<le> 1 + d" "1 + d \<le> u" "l \<le> 1 + e" "1 + e \<le> u"
    using assms by (simp_all add: l_def u_def abs_le_iff)
  have p2: "l * l \<le> (1 + a) * (1 + b)" "(1 + a) * (1 + b) \<le> u * u"
    using r l0 by (auto intro!: mult_mono)
  have p3: "l * l * l \<le> (1 + a) * (1 + b) * (1 + c)" "(1 + a) * (1 + b) * (1 + c) \<le> u * u * u"
    using p2 r l0 by (auto intro!: mult_mono)
  have p4: "l * l * l * l \<le> (1 + a) * (1 + b) * (1 + c) * (1 + d)"
    "(1 + a) * (1 + b) * (1 + c) * (1 + d) \<le> u * u * u * u"
    using p3 r l0 by (auto intro!: mult_mono)
  have e0: "0 < 1 + e" using r l0 by linarith
  have up: "(1 + a) * (1 + b) * (1 + c) * (1 + d) / (1 + e) \<le> u * u * u * u / l"
    using p4 r l0 e0 by (intro frac_le) auto
  have low: "l * l * l * l / u \<le> (1 + a) * (1 + b) * (1 + c) * (1 + d) / (1 + e)"
    using p4 r l0 e0 by (intro frac_le) auto
  have "u * u * u * u / l \<le> 1 + 1 / 2 ^ 50" by (simp add: l_def u_def)
  moreover have "1 - 1 / 2 ^ 50 \<le> l * l * l * l / u" by (simp add: l_def u_def)
  ultimately show ?thesis using up low unfolding abs_le_iff by linarith
qed

lemma tgt_close:
  fixes n r :: nat and f :: real
  assumes "real n * real r \<le> 2 ^ 53" "49 \<le> f"
  shows "\<bar>fl64 (fl64 (fl64 (real n) / fl64 f) * fl64 (real r)) - real n / f * real r\<bar> \<le> 1 / 4"
proof -
  define A where "A = fl64 (real n)"
  define D where "D = fl64 f"
  define Q where "Q = fl64 (A / D)"
  define R where "R = fl64 (real r)"
  define P where "P = fl64 (Q * R)"
  obtain d1 where d1: "\<bar>d1\<bar> \<le> 1 / 2 ^ 53" "A = real n * (1 + d1)"
    unfolding A_def using fl64_rel by blast
  obtain d0 where d0: "\<bar>d0\<bar> \<le> 1 / 2 ^ 53" "D = f * (1 + d0)"
    unfolding D_def using fl64_rel by blast
  obtain d2 where d2: "\<bar>d2\<bar> \<le> 1 / 2 ^ 53" "Q = A / D * (1 + d2)"
    unfolding Q_def using fl64_rel by blast
  obtain d3 where d3: "\<bar>d3\<bar> \<le> 1 / 2 ^ 53" "R = real r * (1 + d3)"
    unfolding R_def using fl64_rel by blast
  obtain d4 where d4: "\<bar>d4\<bar> \<le> 1 / 2 ^ 53" "P = Q * R * (1 + d4)"
    unfolding P_def using fl64_rel by blast
  define x where "x = real n / f * real r"
  define F where "F = (1 + d1) * (1 + d2) * (1 + d3) * (1 + d4) / (1 + d0)"
  have f0: "0 < f" using assms(2) by simp
  have e0: "1 + d0 \<noteq> 0" using d0(1) by (auto simp: abs_le_iff)
  have p: "P = x * F"
    unfolding d4(2) d2(2) d1(2) d0(2) d3(2) x_def F_def using f0 e0 by (simp add: field_simps)
  have F: "\<bar>F - 1\<bar> \<le> 1 / 2 ^ 50"
    unfolding F_def using d1(1) d2(1) d3(1) d4(1) d0(1) by (rule factor_bounds)
  have x0: "0 \<le> x" using f0 by (simp add: x_def)
  have "x = real n * real r / f" by (simp add: x_def)
  also have "\<dots> \<le> 2 ^ 53 / 49"
    using assms f0 by (intro frac_le) simp_all
  also have "\<dots> \<le> 2 ^ 48" by simp
  finally have x48: "x \<le> 2 ^ 48" .
  have "x * F - x = x * (F - 1)" by (simp add: algebra_simps)
  then have "\<bar>x * F - x\<bar> = x * \<bar>F - 1\<bar>"
    using x0 by (simp add: abs_mult)
  also have "\<dots> \<le> 2 ^ 48 * (1 / 2 ^ 50)"
    using x0 x48 F by (intro mult_mono) simp_all
  also have "\<dots> = 1 / 4" by simp
  finally have "\<bar>P - x\<bar> \<le> 1 / 4" unfolding p .
  then show ?thesis unfolding P_def Q_def R_def A_def D_def x_def .
qed

lemma py_int_round_close:
  assumes "0 \<le> p" "\<bar>p - x\<bar> \<le> 1 / 4"
  shows "\<bar>py_int p - round x\<bar> \<le> 1"
proof -
  have a: "of_int \<lfloor>p\<rfloor> \<le> p" "p < of_int \<lfloor>p\<rfloor> + 1" by linarith+
  have b: "of_int (round x) \<le> x + 1 / 2" "x - 1 / 2 < of_int (round x)"
    unfolding round_def by linarith+
  note c = assms(2) [unfolded abs_le_iff]
  have "of_int \<lfloor>p\<rfloor> - of_int (round x) < (1::real)" using a b c by linarith
  moreover have "(- 2::real) < of_int \<lfloor>p\<rfloor> - of_int (round x)" using a b c by linarith
  ultimately have "\<lfloor>p\<rfloor> - round x < 1" "- 2 < \<lfloor>p\<rfloor> - round x" by linarith+
  then show ?thesis using assms(1) by (simp add: py_int_def)
qed

lemma fl64_eval:
  assumes "2 ^ 52 \<le> \<bar>x\<bar> * 2 ^ k" "\<bar>x\<bar> * 2 ^ k < 2 ^ 53"
  shows "fl64 x = of_int (round_even (x * 2 ^ k)) / 2 ^ k"
proof -
  have x0: "x \<noteq> 0" using assms(1) by auto
  have pk: "(2::real) powr (- real k) = 1 / 2 ^ k"
    by (simp add: powr_minus powr_realpow field_simps)
  have "\<lfloor>log 2 \<bar>x\<bar>\<rfloor> = 52 - int k"
  proof (subst floor_log_eq_powr_iff)
    show "0 < \<bar>x\<bar>" using x0 by simp
    show "(1::real) < 2" by simp
    have a: "(2::real) powr real_of_int (52 - int k) = 2 ^ 52 / 2 ^ k"
      by (simp add: powr_diff powr_realpow)
    have b: "(2::real) powr real_of_int (52 - int k + 1) = 2 ^ 53 / 2 ^ k"
    proof -
      have "real_of_int (52 - int k + 1) = 53 - real k" by simp
      then show ?thesis by (simp add: powr_diff powr_realpow)
    qed
    show "2 powr real_of_int (52 - int k) \<le> \<bar>x\<bar> \<and> \<bar>x\<bar> < 2 powr real_of_int (52 - int k + 1)"
      unfolding a b using assms by (simp add: field_simps)
  qed
  then have e: "real_of_int \<lfloor>log 2 \<bar>x\<bar>\<rfloor> - 52 = - real k" by simp
  show ?thesis
    using x0 by (simp add: fl64_def Let_def e pk)
qed

subsection \<open>Lists and slices\<close>

lemma set_range: "set (py_range n) = {0..<n}"
  by (simp add: py_range_def)

lemma length_range: "length (py_range n) = n"
  by (simp add: py_range_def)

lemma distinct_range: "distinct (py_range n)"
  by (simp add: py_range_def)

lemma length_slice: "b \<le> length xs \<Longrightarrow> length (py_slice xs a b) = b - a"
  by (simp add: py_slice_def)

lemma assign_row_40: "length s = 40 \<Longrightarrow> assign_row s = Inr s"
  by (simp add: assign_row_def)

lemma video_rows_full:
  "\<forall>b \<in> set bs. b * 128 + 128 \<le> length chunk \<Longrightarrow>
   video_rows chunk bs v = Inr (foldl (sub_rows chunk) v bs)"
proof (induction bs arbitrary: v)
  case Nil
  then show ?case by simp
next
  case (Cons b bs)
  then have len: "b * 128 + 128 \<le> length chunk" by simp
  have r0: "assign_row (py_slice chunk (b * 128 + 1) (b * 128 + 41)) = Inr (py_slice chunk (b * 128 + 1) (b * 128 + 41))"
    using len by (intro assign_row_40) (simp add: py_slice_def)
  have r1: "assign_row (py_slice chunk (b * 128 + 45) (b * 128 + 85)) = Inr (py_slice chunk (b * 128 + 45) (b * 128 + 85))"
    using len by (intro assign_row_40) (simp add: py_slice_def)
  have r2: "assign_row (py_slice chunk (b * 128 + 88) (b * 128 + 128)) = Inr (py_slice chunk (b * 128 + 88) (b * 128 + 128))"
    using len by (intro assign_row_40) (simp add: py_slice_def)
  have ih: "video_rows chunk bs (sub_rows chunk v b) = Inr (foldl (sub_rows chunk) (sub_rows chunk v b) bs)"
    using Cons by simp
  have step: "video_rows chunk (b # bs) v = video_rows chunk bs (sub_rows chunk v b)"
    by (simp only: video_rows.simps Let_def r0 r1 r2 sum.case sub_rows_def)
  show ?case
    using ih step by simp
qed

lemma length_sub_rows: "length (sub_rows chunk v b) = length v"
  by (simp add: sub_rows_def)

lemma length_foldl_sub_rows: "length (foldl (sub_rows chunk) v bs) = length v"
  by (induction bs arbitrary: v) (simp_all add: length_sub_rows)

lemma sub_rows_other:
  "j \<noteq> b * 3 \<Longrightarrow> j \<noteq> b * 3 + 1 \<Longrightarrow> j \<noteq> b * 3 + 2 \<Longrightarrow> sub_rows chunk v b ! j = v ! j"
  by (simp add: sub_rows_def)

lemma foldl_sub_rows_other:
  "\<forall>b \<in> set bs. j \<noteq> b * 3 \<and> j \<noteq> b * 3 + 1 \<and> j \<noteq> b * 3 + 2 \<Longrightarrow>
   foldl (sub_rows chunk) v bs ! j = v ! j"
  by (induction bs arbitrary: v) (simp_all add: sub_rows_other)

lemma sub_rows_here:
  "b * 3 + 2 < length v \<Longrightarrow>
   sub_rows chunk v b ! (b * 3) = py_slice chunk (b * 128 + 1) (b * 128 + 41) \<and>
   sub_rows chunk v b ! (b * 3 + 1) = py_slice chunk (b * 128 + 45) (b * 128 + 85) \<and>
   sub_rows chunk v b ! (b * 3 + 2) = py_slice chunk (b * 128 + 88) (b * 128 + 128)"
  by (simp add: sub_rows_def)

lemma foldl_sub_rows_here:
  "distinct bs \<Longrightarrow> b \<in> set bs \<Longrightarrow> \<forall>b \<in> set bs. b * 3 + 2 < length v \<Longrightarrow>
   foldl (sub_rows chunk) v bs ! (b * 3) = py_slice chunk (b * 128 + 1) (b * 128 + 41) \<and>
   foldl (sub_rows chunk) v bs ! (b * 3 + 1) = py_slice chunk (b * 128 + 45) (b * 128 + 85) \<and>
   foldl (sub_rows chunk) v bs ! (b * 3 + 2) = py_slice chunk (b * 128 + 88) (b * 128 + 128)"
proof (induction bs arbitrary: v)
  case Nil
  then show ?case by simp
next
  case (Cons a bs)
  show ?case
  proof (cases "b = a")
    case True
    have other: "\<forall>c \<in> set bs. \<forall>k < 3. \<forall>j < 3. a * 3 + k \<noteq> c * 3 + j"
    proof (intro ballI allI impI)
      fix c k j :: nat
      assume "c \<in> set bs" "k < 3" "j < 3"
      then have "a \<noteq> c" using Cons.prems(1) by auto
      then show "a * 3 + k \<noteq> c * 3 + j" using \<open>k < 3\<close> \<open>j < 3\<close> by arith
    qed
    have "foldl (sub_rows chunk) (sub_rows chunk v a) bs ! (a * 3 + k) = sub_rows chunk v a ! (a * 3 + k)"
      if "k < 3" for k
      using other that by (intro foldl_sub_rows_other) (auto simp: numeral_3_eq_3 less_Suc_eq)
    from this [of 0] this [of 1] this [of 2] sub_rows_here [of a v chunk] Cons.prems(3) True
    show ?thesis by simp
  next
    case False
    then have "b \<in> set bs" using Cons.prems by simp
    moreover have "distinct bs" using Cons.prems by simp
    moreover have "\<forall>b \<in> set bs. b * 3 + 2 < length (sub_rows chunk v a)"
      using Cons.prems by (simp add: length_sub_rows)
    ultimately show ?thesis using Cons.IH [of "sub_rows chunk v a"] by simp
  qed
qed

lemma extract_video_full:
  assumes "length chunk = FRAME_SIZE_BYTES"
  shows "extract_video chunk = Inr (video_matrix chunk)"
proof -
  have "\<forall>b \<in> set (py_range 64). b * 128 + 128 \<le> length chunk"
    using assms by (auto simp: set_range FRAME_SIZE_BYTES_def)
  then show ?thesis
    unfolding extract_video_def video_matrix_def by (rule video_rows_full)
qed

lemma length_chunk_of:
  "i < length raw div FRAME_SIZE_BYTES \<Longrightarrow> length (chunk_of raw i) = FRAME_SIZE_BYTES"
proof -
  assume "i < length raw div FRAME_SIZE_BYTES"
  then have "Suc i * FRAME_SIZE_BYTES \<le> length raw"
    by (metis Suc_leI div_times_less_eq_dividend le_trans mult_le_mono1)
  then show ?thesis by (simp add: chunk_of_def py_slice_def)
qed

lemma demux_loop_full:
  "\<forall>i \<in> set ns. i < length raw div FRAME_SIZE_BYTES \<Longrightarrow>
   demux_loop is_pal raw ns (vf, ac) =
     Inr (vf @ map (\<lambda>i. video_matrix (chunk_of raw i)) ns,
          ac @ map (\<lambda>i. extract_audio is_pal (chunk_of raw i)) ns)"
proof (induction ns arbitrary: vf ac)
  case Nil
  then show ?case by simp
next
  case (Cons i ns)
  then have "length (chunk_of raw i) = FRAME_SIZE_BYTES"
    by (simp add: length_chunk_of)
  then have v: "extract_video (chunk_of raw i) = Inr (video_matrix (chunk_of raw i))"
    by (rule extract_video_full)
  have "demux_loop is_pal raw (i # ns) (vf, ac) =
        demux_loop is_pal raw ns
          (vf @ [video_matrix (chunk_of raw i)], ac @ [extract_audio is_pal (chunk_of raw i)])"
    using v by (simp add: Let_def chunk_of_def)
  then show ?case using Cons by simp
qed

lemma demux_total:
  "demux is_pal file =
     Inr (map (\<lambda>i. video_matrix (chunk_of (read_raw file) i)) (py_range (num_frames_of (read_raw file))),
          map (\<lambda>i. extract_audio is_pal (chunk_of (read_raw file) i)) (py_range (num_frames_of (read_raw file))))"
proof -
  have "\<forall>i \<in> set (py_range (num_frames_of (read_raw file))). i < length (read_raw file) div FRAME_SIZE_BYTES"
    by (simp add: set_range num_frames_of_def)
  from demux_loop_full [OF this, of is_pal "[]" "[]"] show ?thesis
    by (simp add: demux_def Let_def)
qed

lemma length_read_raw:
  "int (length (read_raw file)) =
     max 0 (int (length file) - (if length file mod FRAME_SIZE_BYTES \<noteq> 0 then int HEADER_SIZE else 0))"
  by (simp add: read_raw_def Let_def) arith

subsection \<open>Frame count\<close>

text \<open>
  Claim C1, as amended. Loading never fails in the demux loop, it yields as many audio
  taps as video frames, and the number of frames is
  \<open>\<lfloor>max 0 (file_size - (8192 if file_size mod 8704 \<noteq> 0 else 0)) / 8704\<rfloor>\<close>. This is
  the formula of the specification for every file of at least 8192 bytes and for every
  file whose size is a multiple of 8704; a 17408-byte file gives 2 frames and 2 taps.
\<close>

theorem frame_count:
  "\<exists>video_frames audio_chunks.
     demux is_pal file = Inr (video_frames, audio_chunks) \<and>
     length audio_chunks = length video_frames \<and>
     int (length video_frames) =
       max 0 (int (length file) - (if length file mod 8704 \<noteq> 0 then 8192 else 0)) div 8704 \<and>
     (8192 \<le> length file \<or> length file mod 8704 = 0 \<longrightarrow>
        int (length video_frames) = spec_frame_count (length file)) \<and>
     (length file = 17408 \<longrightarrow> length video_frames = 2 \<and> length audio_chunks = 2)"
proof -
  let ?n = "num_frames_of (read_raw file)"
  have n: "int ?n = max 0 (int (length file) - (if length file mod 8704 \<noteq> 0 then 8192 else 0)) div 8704"
    using length_read_raw
    by (simp add: num_frames_of_def FRAME_SIZE_BYTES_def HEADER_SIZE_def zdiv_int)
  have spec: "int ?n = spec_frame_count (length file)" if "8192 \<le> length file \<or> length file mod 8704 = 0"
    using that n by (auto simp: spec_frame_count_def)
  have ex: "?n = 2" if "length file = 17408"
    using that n by simp
  let ?vf = "map (\<lambda>i. video_matrix (chunk_of (read_raw file) i)) (py_range ?n)"
  let ?ac = "map (\<lambda>i. extract_audio is_pal (chunk_of (read_raw file) i)) (py_range ?n)"
  have len: "length ?vf = ?n" "length ?ac = ?n"
    by (simp_all add: length_range)
  show ?thesis
  proof (intro exI conjI impI)
    show "demux is_pal file = Inr (?vf, ?ac)" by (rule demux_total)
    show "length ?ac = length ?vf" by (simp only: len)
    show "int (length ?vf) =
       max 0 (int (length file) - (if length file mod 8704 \<noteq> 0 then 8192 else 0)) div 8704"
      using n by (simp only: len)
    show "int (length ?vf) = spec_frame_count (length file)"
      if "8192 \<le> length file \<or> length file mod 8704 = 0"
      using spec [OF that] by (simp only: len)
    show "length ?vf = 2" if "length file = 17408"
      using ex [OF that] len(1) by (rule subst)
    show "length ?ac = 2" if "length file = 17408"
      using ex [OF that] len(2) by (rule subst)
  qed
qed

text \<open>The theorem at a file of 17408 zero bytes.\<close>

theorem frame_count_witness:
  "\<exists>video_frames audio_chunks.
     demux True (replicate 17408 0) = Inr (video_frames, audio_chunks) \<and>
     length video_frames = 2 \<and> length audio_chunks = 2 \<and>
     int (length video_frames) = spec_frame_count 17408"
  using frame_count [of True "replicate 17408 0"] by (auto simp: spec_frame_count_def)

text \<open>
  Claim C1 as stated fails on a file of one byte: its size is no multiple of 8704, the
  seek to offset 8192 goes beyond the end, nothing is read and no frame is decoded,
  while the formula of the specification gives \<open>\<lfloor>(1 - 8192) / 8704\<rfloor> = -1\<close>.
\<close>

theorem frame_count_counterexample:
  "demux True [0] = Inr ([], []) \<and> spec_frame_count (length [0 :: byte]) = - 1"
  by (simp add: demux_total read_raw_def num_frames_of_def FRAME_SIZE_BYTES_def HEADER_SIZE_def
      py_range_def spec_frame_count_def)

lemma sub_block_slice:
  assumes "a \<le> b" "b \<le> 128"
  shows "py_slice (sub_block chunk k) a b = py_slice chunk (k * 128 + a) (k * 128 + b)"
proof -
  have "py_slice (sub_block chunk k) a b = take (b - a) (drop a (take 128 (drop (128 * k) chunk)))"
    by (simp add: sub_block_def py_slice_def)
  also have "drop a (take 128 (drop (128 * k) chunk)) = take (128 - a) (drop (a + 128 * k) chunk)"
    by (simp only: drop_take drop_drop)
  also have "take (b - a) (take (128 - a) (drop (a + 128 * k) chunk)) = take (b - a) (drop (a + 128 * k) chunk)"
    using assms by (simp only: take_take) (simp add: min_def)
  also have "a + 128 * k = k * 128 + a" by simp
  finally show ?thesis by (simp add: py_slice_def)
qed

lemma length_video_matrix: "length (video_matrix chunk) = HEIGHT"
  by (simp add: video_matrix_def length_foldl_sub_rows)

lemma video_matrix_rows:
  assumes "b < 64"
  shows "video_matrix chunk ! (b * 3) = py_slice chunk (b * 128 + 1) (b * 128 + 41) \<and>
         video_matrix chunk ! (b * 3 + 1) = py_slice chunk (b * 128 + 45) (b * 128 + 85) \<and>
         video_matrix chunk ! (b * 3 + 2) = py_slice chunk (b * 128 + 88) (b * 128 + 128)"
  unfolding video_matrix_def
proof (rule foldl_sub_rows_here)
  show "distinct (py_range 64)" by (rule distinct_range)
  show "b \<in> set (py_range 64)" using assms by (simp add: set_range)
  show "\<forall>b\<in>set (py_range 64). b * 3 + 2 < length (replicate HEIGHT (replicate 40 (0::byte)))"
    by (auto simp: set_range HEIGHT_def)
qed

subsection \<open>Video extraction\<close>

text \<open>
  Claim C8. For every full chunk of 8704 bytes the video extraction succeeds and fills
  a matrix of 192 rows of 40 bytes: for each sub-block \<open>b\<close> in 0..63 (the bytes
  \<open>[128b, 128b + 128)\<close> of the chunk), row \<open>3b\<close> is the sub-block's bytes \<open>[1, 41)\<close>,
  row \<open>3b + 1\<close> its bytes \<open>[45, 85)\<close> and row \<open>3b + 2\<close> its bytes \<open>[88, 128)\<close>.
\<close>

theorem video_extraction:
  assumes "length chunk = FRAME_SIZE_BYTES"
  shows "\<exists>v. extract_video chunk = Inr v \<and> length v = 192 \<and>
           (\<forall>r < 192. length (v ! r) = 40) \<and>
           (\<forall>b < 64. v ! (3 * b) = py_slice (sub_block chunk b) 1 41 \<and>
                     v ! (3 * b + 1) = py_slice (sub_block chunk b) 45 85 \<and>
                     v ! (3 * b + 2) = py_slice (sub_block chunk b) 88 128)"
proof (intro exI conjI allI impI)
  show "extract_video chunk = Inr (video_matrix chunk)"
    using assms by (rule extract_video_full)
  show "length (video_matrix chunk) = 192"
    by (simp add: length_video_matrix HEIGHT_def)
  fix b :: nat assume b: "b < 64"
  show "video_matrix chunk ! (3 * b) = py_slice (sub_block chunk b) 1 41"
    using video_matrix_rows [OF b, of chunk] by (simp add: sub_block_slice mult.commute)
  show "video_matrix chunk ! (3 * b + 1) = py_slice (sub_block chunk b) 45 85"
    using video_matrix_rows [OF b, of chunk] by (simp add: sub_block_slice mult.commute)
  show "video_matrix chunk ! (3 * b + 2) = py_slice (sub_block chunk b) 88 128"
    using video_matrix_rows [OF b, of chunk] by (simp add: sub_block_slice mult.commute)
next
  fix r :: nat assume r: "r < 192"
  define b where "b = r div 3"
  have b: "b < 64" using r by (simp add: b_def)
  have len: "b * 128 + 128 \<le> length chunk"
    using b assms by (simp add: FRAME_SIZE_BYTES_def)
  have l0: "length (py_slice chunk (b * 128 + 1) (b * 128 + 41)) = 40"
    using len by (simp add: py_slice_def)
  have l1: "length (py_slice chunk (b * 128 + 45) (b * 128 + 85)) = 40"
    using len by (simp add: py_slice_def)
  have l2: "length (py_slice chunk (b * 128 + 88) (b * 128 + 128)) = 40"
    using len by (simp add: py_slice_def)
  have "r mod 3 = 0 \<or> r mod 3 = 1 \<or> r mod 3 = 2" by arith
  then consider "r = b * 3" | "r = b * 3 + 1" | "r = b * 3 + 2"
    unfolding b_def by (metis add.right_neutral div_mult_mod_eq)
  then show "length (video_matrix chunk ! r) = 40"
  proof cases
    case 1
    then show ?thesis using video_matrix_rows [OF b, of chunk] l0 by (simp only:)
  next
    case 2
    then show ?thesis using video_matrix_rows [OF b, of chunk] l1 by (simp only:)
  next
    case 3
    then show ?thesis using video_matrix_rows [OF b, of chunk] l2 by (simp only:)
  qed
qed


text \<open>The theorem at a chunk of 8704 zero bytes.\<close>

theorem video_extraction_witness:
  "length (replicate 8704 (0::byte)) = FRAME_SIZE_BYTES \<and>
   (\<exists>v. extract_video (replicate 8704 0) = Inr v \<and> length v = 192 \<and>
        length (v ! 191) = 40 \<and>
        v ! (3 * 63 + 2) = py_slice (sub_block (replicate 8704 0) 63) 88 128)"
proof -
  have len: "length (replicate 8704 (0::byte)) = FRAME_SIZE_BYTES"
    by (simp add: FRAME_SIZE_BYTES_def)
  from video_extraction [OF len] obtain v where
    v: "extract_video (replicate 8704 0) = Inr v" "length v = 192"
       "\<forall>r < 192. length (v ! r) = 40"
       "\<forall>b < 64. v ! (3 * b) = py_slice (sub_block (replicate 8704 0) b) 1 41 \<and>
                 v ! (3 * b + 1) = py_slice (sub_block (replicate 8704 0) b) 45 85 \<and>
                 v ! (3 * b + 2) = py_slice (sub_block (replicate 8704 0) b) 88 128"
    by blast
  have "length (v ! 191) = 40" using v(3) by simp
  moreover have "v ! (3 * 63 + 2) = py_slice (sub_block (replicate 8704 0) 63) 88 128"
    using v(4) [rule_format, of 63] by simp
  ultimately show ?thesis using len v(1,2) by blast
qed

lemma chunk_of_take:
  assumes "i < n" "n * FRAME_SIZE_BYTES \<le> length raw"
  shows "chunk_of (take (n * FRAME_SIZE_BYTES) raw) i = chunk_of raw i"
proof -
  have "Suc i * FRAME_SIZE_BYTES \<le> n * FRAME_SIZE_BYTES"
    using assms(1) by (intro mult_le_mono1) simp
  then have le: "i * FRAME_SIZE_BYTES + FRAME_SIZE_BYTES \<le> n * FRAME_SIZE_BYTES"
    by simp
  have "chunk_of (take (n * FRAME_SIZE_BYTES) raw) i =
        take FRAME_SIZE_BYTES (take (n * FRAME_SIZE_BYTES - i * FRAME_SIZE_BYTES) (drop (i * FRAME_SIZE_BYTES) raw))"
    by (simp add: chunk_of_def py_slice_def drop_take)
  also have "\<dots> = take FRAME_SIZE_BYTES (drop (i * FRAME_SIZE_BYTES) raw)"
    using le by (simp add: min_def)
  finally show ?thesis by (simp add: chunk_of_def py_slice_def)
qed

subsection \<open>A trailing incomplete chunk\<close>

text \<open>
  Claim C2, as amended. Loading never fails in the demux loop. The number of frames is
  the number of complete 8704-byte chunks of the data that remain after the header
  skip, every chunk that is decoded has exactly 8704 bytes, and the result is the one
  of the same data with the trailing incomplete chunk cut off: the incomplete chunk is
  never sliced and is dropped without an error.
\<close>

theorem trailing_chunk_dropped:
  "\<exists>video_frames audio_chunks.
     demux is_pal file = Inr (video_frames, audio_chunks) \<and>
     length video_frames = length (read_raw file) div FRAME_SIZE_BYTES \<and>
     (\<forall>i < length video_frames. length (chunk_of (read_raw file) i) = FRAME_SIZE_BYTES) \<and>
     demux_loop is_pal (take (length video_frames * FRAME_SIZE_BYTES) (read_raw file))
       (py_range (length video_frames)) ([], []) = Inr (video_frames, audio_chunks)"
proof -
  define raw where "raw = read_raw file"
  define n where "n = length raw div FRAME_SIZE_BYTES"
  let ?vf = "map (\<lambda>i. video_matrix (chunk_of raw i)) (py_range n)"
  let ?ac = "map (\<lambda>i. extract_audio is_pal (chunk_of raw i)) (py_range n)"
  have le: "n * FRAME_SIZE_BYTES \<le> length raw"
    by (simp add: n_def)
  have len: "length ?vf = n" by (simp add: length_range)
  have d: "demux is_pal file = Inr (?vf, ?ac)"
    using demux_total [of is_pal "file"] by (simp add: raw_def n_def num_frames_of_def)
  have full: "\<forall>i < n. length (chunk_of raw i) = FRAME_SIZE_BYTES"
    by (simp add: n_def length_chunk_of)
  have n': "length (take (n * FRAME_SIZE_BYTES) raw) div FRAME_SIZE_BYTES = n"
    using le by (simp add: min_def FRAME_SIZE_BYTES_def)
  have "\<forall>i \<in> set (py_range n). i < length (take (n * FRAME_SIZE_BYTES) raw) div FRAME_SIZE_BYTES"
    by (simp only: n') (simp add: set_range)
  from demux_loop_full [OF this, of is_pal "[]" "[]"]
  have "demux_loop is_pal (take (n * FRAME_SIZE_BYTES) raw) (py_range n) ([], []) =
        Inr (map (\<lambda>i. video_matrix (chunk_of (take (n * FRAME_SIZE_BYTES) raw) i)) (py_range n),
             map (\<lambda>i. extract_audio is_pal (chunk_of (take (n * FRAME_SIZE_BYTES) raw) i)) (py_range n))"
    by simp
  also have "map (\<lambda>i. video_matrix (chunk_of (take (n * FRAME_SIZE_BYTES) raw) i)) (py_range n) = ?vf"
    using le by (intro map_cong refl) (simp add: set_range chunk_of_take)
  also have "map (\<lambda>i. extract_audio is_pal (chunk_of (take (n * FRAME_SIZE_BYTES) raw) i)) (py_range n) = ?ac"
    using le by (intro map_cong refl) (simp add: set_range chunk_of_take)
  finally have t: "demux_loop is_pal (take (n * FRAME_SIZE_BYTES) raw) (py_range n) ([], []) = Inr (?vf, ?ac)" .
  show ?thesis
    unfolding raw_def [symmetric] n_def [symmetric]
  proof (intro exI conjI)
    show "demux is_pal file = Inr (?vf, ?ac)" by (rule d)
    show "length ?vf = n" by (rule len)
    show "\<forall>i < length ?vf. length (chunk_of raw i) = FRAME_SIZE_BYTES"
      using full by (simp only: len)
    show "demux_loop is_pal (take (length ?vf * FRAME_SIZE_BYTES) raw) (py_range (length ?vf)) ([], []) =
          Inr (?vf, ?ac)"
      using t by (simp only: len)
  qed
qed

text \<open>
  The theorem at a file of 16996 zero bytes: a header of 8192 bytes, one frame of 8704
  bytes and 100 bytes more.
\<close>

theorem trailing_chunk_dropped_witness:
  "\<exists>video_frames audio_chunks.
     demux True (replicate 16996 0) = Inr (video_frames, audio_chunks) \<and>
     length video_frames = 1 \<and>
     length (chunk_of (read_raw (replicate 16996 0)) 0) = FRAME_SIZE_BYTES"
proof -
  have n: "length (read_raw (replicate 16996 0)) div FRAME_SIZE_BYTES = 1"
    by (simp add: read_raw_def FRAME_SIZE_BYTES_def HEADER_SIZE_def)
  from trailing_chunk_dropped [of True "replicate 16996 0"] show ?thesis
    unfolding n by auto
qed

text \<open>
  Claim C2 as stated fails on that file: after the header skip 8804 bytes remain, which
  end in an incomplete chunk of 100 bytes, and loading does not fail: it decodes one
  frame and drops the 100 bytes.
\<close>

theorem trailing_chunk_counterexample:
  "length (read_raw (replicate 16996 0)) mod FRAME_SIZE_BYTES = 100 \<and>
   \<not> isl (demux True (replicate 16996 0)) \<and>
   length (fst (projr (demux True (replicate 16996 0)))) = 1"
  by (simp add: demux_total read_raw_def num_frames_of_def FRAME_SIZE_BYTES_def HEADER_SIZE_def
      length_range)

lemma phase1_guard: "(a < (n - 8192) div 10) = (\<not> n \<le> 8192 + 10 * a + (9::nat))"
proof -
  have "(a < (n - 8192) div 10) = (Suc a \<le> (n - 8192) div 10)" by auto
  also have "\<dots> = (Suc a * 10 \<le> n - 8192)"
    by (rule less_eq_div_iff_mult_less_eq) simp
  also have "\<dots> = (\<not> n \<le> 8192 + 10 * a + 9)" by auto
  finally show ?thesis .
qed

lemma audio_phase1_step:
  assumes "\<not> length chunk \<le> 8192 + 10 * y + 9"
  shows "audio_phase1 off1 off2 chunk (y # ys) (8192 + 10 * y, ac) =
         audio_phase1 off1 off2 chunk ys (8192 + 10 * Suc y, phase1_step off1 off2 chunk ac y)"
proof -
  have "8192 + 10 * y + 10 = 8192 + 10 * Suc y" by simp
  then show ?thesis
    using assms by (simp only: audio_phase1.simps phase1_step_def Let_def if_False)
qed

lemma audio_phase1_stop:
  assumes "length chunk \<le> 8192 + 10 * y + 9"
  shows "audio_phase1 off1 off2 chunk (y # ys) (8192 + 10 * y, ac) = (8192 + 10 * y, ac)"
  using assms by (simp only: audio_phase1.simps if_True)

lemma audio_phase1_upt:
  "a \<le> b \<Longrightarrow>
   audio_phase1 off1 off2 chunk [a..<b] (8192 + 10 * a, ac) =
     (8192 + 10 * min b (max a ((length chunk - 8192) div 10)),
      foldl (phase1_step off1 off2 chunk) ac [a..<min b (max a ((length chunk - 8192) div 10))])"
proof (induction "b - a" arbitrary: a ac)
  case 0
  then have "a = b" by simp
  then show ?case by simp
next
  case (Suc m)
  then have ab: "a < b" by simp
  then have upt: "[a..<b] = a # [Suc a..<b]" by (rule upt_conv_Cons)
  let ?d = "(length chunk - 8192) div 10"
  show ?case
  proof (cases "a < ?d")
    case True
    then have g: "\<not> length chunk \<le> 8192 + 10 * a + 9" by (simp only: phase1_guard [symmetric])
    have k: "min b (max a ?d) = min b (max (Suc a) ?d)" using True by simp
    have ak: "a < min b (max (Suc a) ?d)" using True ab by simp
    have ih: "audio_phase1 off1 off2 chunk [Suc a..<b] (8192 + 10 * Suc a, phase1_step off1 off2 chunk ac a) =
      (8192 + 10 * min b (max (Suc a) ?d),
       foldl (phase1_step off1 off2 chunk) (phase1_step off1 off2 chunk ac a) [Suc a..<min b (max (Suc a) ?d)])"
      using Suc.hyps(2) ab by (intro Suc.hyps(1)) simp_all
    have "foldl (phase1_step off1 off2 chunk) ac [a..<min b (max (Suc a) ?d)] =
          foldl (phase1_step off1 off2 chunk) (phase1_step off1 off2 chunk ac a) [Suc a..<min b (max (Suc a) ?d)]"
      using ak by (simp only: upt_conv_Cons [OF ak] foldl_Cons)
    then show ?thesis
      by (simp only: upt audio_phase1_step [OF g] ih k)
  next
    case False
    then have g: "length chunk \<le> 8192 + 10 * a + 9" by (simp only: phase1_guard) simp
    have k: "min b (max a ?d) = a" using False ab by simp
    show ?thesis
      by (simp only: upt audio_phase1_stop [OF g] k) simp
  qed
qed


subsection \<open>The first audio loop\<close>

text \<open>
  Claim C4. The audio loops are part of the body of the demux loop, so the chunk they
  read is chunk \<open>i\<close> of the data for a frame index \<open>i\<close> below the frame count, and
  has 8704 bytes. On such a chunk the first audio loop, from the cursor 8192, runs all
  its 32 iterations: after \<open>k\<close> of them the cursor is \<open>8192 + 10 * k\<close> and the tap
  array is the one that the steps \<open>0, \<dots>, k - 1\<close> of \<open>phase1_step\<close> give, where step
  \<open>y\<close> assigns the 9 bytes at the cursor \<open>8192 + 10 * y\<close> to the indices \<open>y\<close>,
  \<open>y + off1\<close>, \<open>y + 32 + off1\<close>, \<open>y + 64 + off1\<close>, \<open>y + 96 + off1\<close>, \<open>y + 128 + off1\<close>,
  \<open>y + 160 + off1\<close>, \<open>y + off2\<close>, \<open>y + 32 + off2\<close> in that order. At the cursor of
  every iteration the test of the \<^verbatim>\<open>break\<close> (\<^verbatim>\<open>ptr+9>=len(chunk)\<close>) holds exactly
  when fewer than 9 bytes remain there, and at least 9 bytes do remain.
\<close>

theorem audio_first_phase:
  assumes "i < num_frames_of (read_raw file)" and "chunk = chunk_of (read_raw file) i"
  shows "length chunk = FRAME_SIZE_BYTES \<and>
         (\<forall>k \<le> 32. audio_phase1 off1 off2 chunk (py_range k) (8192, ac) =
              (8192 + 10 * k, foldl (phase1_step off1 off2 chunk) ac (py_range k))) \<and>
         (\<forall>y < 32. (length chunk \<le> (8192 + 10 * y) + 9) = (length chunk - (8192 + 10 * y) < 9) \<and>
                    9 \<le> length chunk - (8192 + 10 * y))"
proof (intro conjI allI impI)
  show len: "length chunk = FRAME_SIZE_BYTES"
    using assms(1) unfolding assms(2) num_frames_of_def by (rule length_chunk_of)
  have d: "(length chunk - 8192) div 10 = 51"
    by (simp add: len FRAME_SIZE_BYTES_def)
  {
    fix k :: nat assume k: "k \<le> 32"
    then have m: "min k (max 0 ((length chunk - 8192) div 10)) = k"
      by (simp add: d)
    have "audio_phase1 off1 off2 chunk [0..<k] (8192 + 10 * 0, ac) =
       (8192 + 10 * min k (max 0 ((length chunk - 8192) div 10)),
        foldl (phase1_step off1 off2 chunk) ac [0..<min k (max 0 ((length chunk - 8192) div 10))])"
      by (rule audio_phase1_upt) simp
    then show "audio_phase1 off1 off2 chunk (py_range k) (8192, ac) =
        (8192 + 10 * k, foldl (phase1_step off1 off2 chunk) ac (py_range k))"
      unfolding m py_range_def by simp
  }
  {
    fix y :: nat assume y: "y < 32"
    then show "(length chunk \<le> (8192 + 10 * y) + 9) = (length chunk - (8192 + 10 * y) < 9)"
      by (simp add: len FRAME_SIZE_BYTES_def)
    from y show "9 \<le> length chunk - (8192 + 10 * y)"
      by (simp add: len FRAME_SIZE_BYTES_def)
  }
qed

text \<open>
  The theorem at the only chunk of a file of 8704 zero bytes, with the offsets of the
  50 Hz standard: the cursor ends at 8512.
\<close>

theorem audio_first_phase_witness:
  "0 < num_frames_of (read_raw (replicate 8704 0)) \<and>
   length (chunk_of (read_raw (replicate 8704 0)) 0) = FRAME_SIZE_BYTES \<and>
   audio_phase1 120 52 (chunk_of (read_raw (replicate 8704 0)) 0) (py_range 32)
       (8192, replicate 512 50) =
     (8512, foldl (phase1_step 120 52 (chunk_of (read_raw (replicate 8704 0)) 0))
              (replicate 512 50) (py_range 32)) \<and>
   9 \<le> length (chunk_of (read_raw (replicate 8704 0)) 0) - (8192 + 10 * 31)"
proof -
  have n: "0 < num_frames_of (read_raw (replicate 8704 0))"
    by (simp add: read_raw_def num_frames_of_def FRAME_SIZE_BYTES_def)
  note t = audio_first_phase [OF n refl, of 120 52 "replicate 512 50"]
  from t have a: "length (chunk_of (read_raw (replicate 8704 0)) 0) = FRAME_SIZE_BYTES"
    by (rule conjunct1)
  from t have b: "\<forall>k \<le> 32.
      audio_phase1 120 52 (chunk_of (read_raw (replicate 8704 0)) 0) (py_range k)
        (8192, replicate 512 50) =
      (8192 + 10 * k, foldl (phase1_step 120 52 (chunk_of (read_raw (replicate 8704 0)) 0))
         (replicate 512 50) (py_range k))"
    by (rule conjunct2 [THEN conjunct1])
  from t have c: "\<forall>y < 32.
      (length (chunk_of (read_raw (replicate 8704 0)) 0) \<le> (8192 + 10 * y) + 9) =
        (length (chunk_of (read_raw (replicate 8704 0)) 0) - (8192 + 10 * y) < 9) \<and>
      9 \<le> length (chunk_of (read_raw (replicate 8704 0)) 0) - (8192 + 10 * y)"
    by (rule conjunct2 [THEN conjunct2])
  have b': "audio_phase1 120 52 (chunk_of (read_raw (replicate 8704 0)) 0) (py_range 32)
       (8192, replicate 512 50) =
     (8192 + 10 * 32, foldl (phase1_step 120 52 (chunk_of (read_raw (replicate 8704 0)) 0))
              (replicate 512 50) (py_range 32))"
    using b [rule_format, of 32] by simp
  have c': "9 \<le> length (chunk_of (read_raw (replicate 8704 0)) 0) - (8192 + 10 * 31)"
    using c [rule_format, of 31] by simp
  have e: "8192 + 10 * 32 = (8512::nat)" by simp
  show ?thesis using n a b' c' unfolding e by (intro conjI)
qed

lemma audio_phase1_length:
  "length (snd (audio_phase1 off1 off2 chunk ys (ptr, ac))) = length ac"
  by (induction ys arbitrary: ptr ac) simp_all

lemma audio_phase1_unwritten:
  "i \<notin> set (phase1_indices off1 off2 chunk ys ptr) \<Longrightarrow>
   snd (audio_phase1 off1 off2 chunk ys (ptr, ac)) ! i = ac ! i"
  by (induction ys arbitrary: ptr ac) (simp_all split: if_splits)

lemma audio_phase1_fst:
  "fst (audio_phase1 off1 off2 chunk ys (ptr, ac)) = fst (audio_phase1 off1 off2 chunk ys (ptr, ac'))"
  by (induction ys arbitrary: ptr ac ac') simp_all

lemma audio_phase2_length:
  "length (snd (audio_phase2 is_pal off2 chunk ys (ptr, ac))) = length ac"
  by (induction ys arbitrary: ptr ac is_pal) (simp_all add: Let_def)

lemma audio_phase2_unwritten:
  "i \<notin> set (phase2_indices is_pal off2 chunk ys ptr) \<Longrightarrow>
   snd (audio_phase2 is_pal off2 chunk ys (ptr, ac)) ! i = ac ! i"
  by (induction ys arbitrary: ptr ac is_pal) (simp_all add: Let_def split: if_splits)

lemma length_tap_array: "length (tap_array is_pal chunk) = 512"
proof -
  obtain p1 a1 where s1: "audio_phase1 (off1_of is_pal) (off2_of is_pal) chunk (py_range 32)
       (8192, replicate 512 50) = (p1, a1)" by force
  obtain p2 a2 where s2: "audio_phase2 is_pal (off2_of is_pal) chunk (py_range 19) (p1, a1) = (p2, a2)"
    by force
  have "length a1 = 512"
    using audio_phase1_length [of "off1_of is_pal" "off2_of is_pal" chunk "py_range 32" 8192 "replicate 512 50"]
    by (simp add: s1)
  then have "length a2 = 512"
    using audio_phase2_length [of is_pal "off2_of is_pal" chunk "py_range 19" p1 a1]
    by (simp add: s2)
  then show ?thesis
    by (simp add: tap_array_def s1 s2 audio_phase3_def)
qed

lemma tap_array_unwritten:
  assumes "i \<notin> set (written_indices is_pal chunk)"
  shows "tap_array is_pal chunk ! i = 50 \<or> 512 \<le> i"
proof -
  obtain p1 a1 where s1: "audio_phase1 (off1_of is_pal) (off2_of is_pal) chunk (py_range 32)
       (8192, replicate 512 50) = (p1, a1)" by force
  obtain p2 a2 where s2: "audio_phase2 is_pal (off2_of is_pal) chunk (py_range 19) (p1, a1) = (p2, a2)"
    by force
  from assms have w1: "i \<notin> set (phase1_indices (off1_of is_pal) (off2_of is_pal) chunk (py_range 32) 8192)"
    and w2: "i \<notin> set (phase2_indices is_pal (off2_of is_pal) chunk (py_range 19) p1)"
    and w3: "p2 < length chunk \<longrightarrow> i \<noteq> 51"
    by (auto simp: written_indices_def Let_def s1 s2)
  have a1: "a1 ! i = replicate 512 50 ! i"
    using audio_phase1_unwritten [OF w1, of "replicate 512 50"] by (simp add: s1)
  have a2: "a2 ! i = a1 ! i"
    using audio_phase2_unwritten [OF w2, of a1] by (simp add: s2)
  have "tap_array is_pal chunk ! i = a2 ! i"
    using w3 by (simp add: tap_array_def s1 s2 audio_phase3_def)
  then show ?thesis using a1 a2 by (cases "i < 512") simp_all
qed

subsection \<open>The audio tap of a chunk\<close>

text \<open>
  Claim C5. For every chunk, of any length, the audio tap has exactly \<open>audio_len\<close>
  entries (312 for the 50 Hz standard, 262 for the 60 Hz standard). Every index of the
  512-entry tap array that the tap algorithm does not assign holds the silence default
  50, so does every such index of the tap, and there the centering step (clamp to
  \<open>[0, 100]\<close>, then subtract 50) gives 0.
\<close>

theorem audio_tap_silence:
  "length (extract_audio is_pal chunk) = audio_len is_pal \<and>
   audio_len is_pal = (if is_pal then 312 else 262) \<and>
   length (tap_array is_pal chunk) = 512 \<and>
   (\<forall>i < 512. i \<notin> set (written_indices is_pal chunk) \<longrightarrow> tap_array is_pal chunk ! i = 50) \<and>
   (\<forall>i < audio_len is_pal. i \<notin> set (written_indices is_pal chunk) \<longrightarrow>
      extract_audio is_pal chunk ! i = 50 \<and>
      center (real (unat (extract_audio is_pal chunk ! i))) = 0)"
proof (intro conjI allI impI)
  show "length (extract_audio is_pal chunk) = audio_len is_pal"
    by (simp add: extract_audio_def length_tap_array audio_len_def)
  show "audio_len is_pal = (if is_pal then 312 else 262)"
    by (simp add: audio_len_def)
  show "length (tap_array is_pal chunk) = 512"
    by (rule length_tap_array)
next
  fix i assume "i < 512" "i \<notin> set (written_indices is_pal chunk)"
  then show "tap_array is_pal chunk ! i = 50"
    using tap_array_unwritten [of i is_pal chunk] by simp
next
  fix i assume i: "i < audio_len is_pal" "i \<notin> set (written_indices is_pal chunk)"
  then have "i < 512" by (simp add: audio_len_def split: if_splits)
  then have "tap_array is_pal chunk ! i = 50"
    using tap_array_unwritten [of i is_pal chunk] i(2) by simp
  then show e: "extract_audio is_pal chunk ! i = 50"
    using i(1) by (simp add: extract_audio_def)
  show "center (real (unat (extract_audio is_pal chunk ! i))) = 0"
    by (simp add: e center_def np_clip_def)
qed

text \<open>
  The theorem at a chunk of 8704 zero bytes, where index 400 of the tap array is not
  assigned, and at a truncated chunk of 8200 bytes, where index 5 of the tap is not.
\<close>

theorem audio_tap_silence_witness:
  "400 \<notin> set (written_indices True (replicate 8704 0)) \<and>
   tap_array True (replicate 8704 0) ! 400 = 50 \<and>
   length (extract_audio True (replicate 8704 0)) = 312 \<and>
   5 \<notin> set (written_indices True (replicate 8200 0)) \<and>
   extract_audio True (replicate 8200 0) ! 5 = 50 \<and>
   center (real (unat (extract_audio True (replicate 8200 0) ! 5))) = 0"
proof -
  have w: "5 \<notin> set (written_indices True (replicate 8200 0))"
    by (simp add: written_indices_def py_range_def upt_conv_Cons)
  have w': "400 \<notin> set (written_indices True (replicate 8704 0))"
    by (simp add: written_indices_def py_range_def upt_conv_Cons off1_of_def off2_of_def Let_def)
  have "tap_array True (replicate 8704 0) ! 400 = 50"
    using audio_tap_silence [of True "replicate 8704 0"] w' by simp
  moreover have "length (extract_audio True (replicate 8704 0)) = 312"
    using audio_tap_silence [of True "replicate 8704 0"] by simp
  moreover have "extract_audio True (replicate 8200 0) ! 5 = 50 \<and>
      center (real (unat (extract_audio True (replicate 8200 0) ! 5))) = 0"
    using audio_tap_silence [of True "replicate 8200 0"] w
    by (simp add: audio_len_def center_def np_clip_def)
  ultimately show ?thesis using w w' by blast
qed

lemma length_linspace01: "length (linspace01 n) = n"
  by (simp add: linspace01_def)

lemma py_int_nonneg: "0 \<le> x \<Longrightarrow> 0 \<le> py_int x"
  by (simp add: py_int_def)

lemma fps_of_pos: "0 < fps_of is_pal"
  by (simp add: fps_of_def fl64_pos)

lemma vid_samples_nonneg:
  "0 \<le> fl64 (fl64 (fl64 (real n) / fps_of is_pal) * fl64 (real mix_freq))"
proof -
  have "0 \<le> fl64 (real n) / fps_of is_pal"
    using fps_of_pos [of is_pal] by (simp add: fl64_nonneg)
  then have "0 \<le> fl64 (fl64 (real n) / fps_of is_pal) * fl64 (real mix_freq)"
    by (intro mult_nonneg_nonneg fl64_nonneg) simp_all
  then show ?thesis by (rule fl64_nonneg)
qed

lemma tgt_samples_nonneg: "0 \<le> tgt_samples_of is_pal mix_freq n"
  unfolding tgt_samples_of_def Let_def by (intro py_int_nonneg vid_samples_nonneg)

lemma center_bounds: "- 50 \<le> center x \<and> center x \<le> 50"
  by (simp add: center_def np_clip_def)

lemma interp1_bounds:
  "length xp = length fp \<Longrightarrow> xp \<noteq> [] \<Longrightarrow> \<forall>f \<in> set fp. lo \<le> f \<and> f \<le> hi \<Longrightarrow>
   lo \<le> interp1 t xp fp \<and> interp1 t xp fp \<le> hi"
proof (induction t xp fp rule: interp1.induct)
  case (1 x x0 x1 xs f0 f1 fs)
  show ?case
  proof (cases "x \<le> x0")
    case True
    then show ?thesis using 1 by simp
  next
    case False
    note nle = this
    show ?thesis
    proof (cases "x < x1")
      case True
      define u where "u = (x - x0) / (x1 - x0)"
      have pos: "0 < x1 - x0" using nle True by simp
      have u0: "0 \<le> u" using nle pos by (simp add: u_def)
      have u1: "u \<le> 1" using True pos by (simp add: u_def)
      have f: "lo \<le> f0" "f0 \<le> hi" "lo \<le> f1" "f1 \<le> hi" using 1(4) by simp_all
      have eq: "(f1 - f0) / (x1 - x0) * (x - x0) + f0 = (1 - u) * f0 + u * f1"
        by (simp add: u_def algebra_simps diff_divide_distrib add_divide_distrib)
      have "(1 - u) * f0 + u * f1 \<le> hi"
        using f u0 u1 by (intro convex_bound_le) simp_all
      moreover have "(1 - u) * (- f0) + u * (- f1) \<le> - lo"
        using f u0 u1 by (intro convex_bound_le) simp_all
      then have "lo \<le> (1 - u) * f0 + u * f1" by (simp add: algebra_simps)
      ultimately have "lo \<le> (f1 - f0) / (x1 - x0) * (x - x0) + f0 \<and>
          (f1 - f0) / (x1 - x0) * (x - x0) + f0 \<le> hi"
        by (simp only: eq)
      moreover have "interp1 x (x0 # x1 # xs) (f0 # f1 # fs) = (f1 - f0) / (x1 - x0) * (x - x0) + f0"
        using nle True by (simp only: interp1.simps if_False if_True)
      ultimately show ?thesis by (simp only:)
    next
      case False
      then show ?thesis using nle 1 by simp
    qed
  qed
qed simp_all


lemma interp_audio_ok:
  assumes "raw_audio_of acs \<noteq> []"
  shows "\<exists>rs. interp_audio is_pal mf n acs = Inr rs \<and>
              length rs = nat (tgt_samples_of is_pal mf n) \<and>
              (\<forall>r \<in> set rs. - 50 \<le> r \<and> r \<le> 50)"
proof -
  let ?raw = "map center (raw_audio_of acs)"
  let ?xp = "linspace01 (length ?raw)"
  let ?x = "linspace01 (nat (tgt_samples_of is_pal mf n))"
  have ne: "?xp \<noteq> []"
    using assms length_linspace01 [of "length ?raw"] by (metis length_0_conv length_map)
  have len: "length ?xp = length ?raw" by (rule length_linspace01)
  have b: "\<forall>f \<in> set ?raw. - 50 \<le> f \<and> f \<le> 50"
    using center_bounds by auto
  have "interp_audio is_pal mf n acs = Inr (map (\<lambda>t. interp1 t ?xp ?raw) ?x)"
    using ne len tgt_samples_nonneg [of is_pal mf n]
    by (simp add: interp_audio_def Let_def np_interp_def)
  moreover have "length (map (\<lambda>t. interp1 t ?xp ?raw) ?x) = nat (tgt_samples_of is_pal mf n)"
    by (simp add: length_linspace01)
  moreover have "\<forall>r \<in> set (map (\<lambda>t. interp1 t ?xp ?raw) ?x). - 50 \<le> r \<and> r \<le> 50"
    using interp1_bounds [OF len ne b] by auto
  ultimately show ?thesis by blast
qed

lemma py_int_bound:
  assumes "- k \<le> x" "x \<le> k" "0 \<le> k"
  shows "- k \<le> real_of_int (py_int x) \<and> real_of_int (py_int x) \<le> k"
proof (cases "0 \<le> x")
  case True
  then have "py_int x = \<lfloor>x\<rfloor>" by (simp add: py_int_def)
  moreover have "0 \<le> \<lfloor>x\<rfloor>" using True by simp
  moreover have "real_of_int \<lfloor>x\<rfloor> \<le> x" by simp
  ultimately show ?thesis using assms by linarith
next
  case False
  then have "py_int x = \<lceil>x\<rceil>" by (simp add: py_int_def)
  moreover have "\<lceil>x\<rceil> \<le> 0" using False by (simp add: ceiling_le_iff)
  moreover have "x \<le> real_of_int \<lceil>x\<rceil>" by simp
  ultimately show ?thesis using assms by linarith
qed

lemma sample_bound:
  assumes "- 50 \<le> r" "r \<le> 50"
  shows "np_clip (r * 500.0) (- 32000) 32000 = r * 500.0"
    and "to_int16 (np_clip (r * 500.0) (- 32000) 32000) = py_int (r * 500.0)"
    and "\<bar>to_int16 (np_clip (r * 500.0) (- 32000) 32000)\<bar> \<le> 25000"
proof -
  show c: "np_clip (r * 500.0) (- 32000) 32000 = r * 500.0"
    using assms by (simp add: np_clip_def)
  have "- 25000 \<le> real_of_int (py_int (r * 500.0)) \<and> real_of_int (py_int (r * 500.0)) \<le> 25000"
    using assms by (intro py_int_bound) simp_all
  then have b: "- 25000 \<le> py_int (r * 500.0)" "py_int (r * 500.0) \<le> 25000"
    by linarith+
  then show t: "to_int16 (np_clip (r * 500.0) (- 32000) 32000) = py_int (r * 500.0)"
    unfolding c to_int16_def by (simp add: mod_pos_pos_trivial)
  show "\<bar>to_int16 (np_clip (r * 500.0) (- 32000) 32000)\<bar> \<le> 25000"
    using b unfolding t by linarith
qed

lemma resample_ok:
  assumes "raw_audio_of acs \<noteq> []"
  shows "\<exists>rs. interp_audio is_pal mf n acs = Inr rs \<and>
              resample is_pal mf n acs = Inr (map (\<lambda>r. py_int (r * 500.0)) rs) \<and>
              length rs = nat (tgt_samples_of is_pal mf n) \<and>
              (\<forall>r \<in> set rs. - 50 \<le> r \<and> r \<le> 50 \<and>
                              np_clip (r * 500.0) (- 32000) 32000 = r * 500.0 \<and>
                              \<bar>py_int (r * 500.0)\<bar> \<le> 25000)"
proof -
  from interp_audio_ok [OF assms, of is_pal mf n] obtain rs where
    rs: "interp_audio is_pal mf n acs = Inr rs" "length rs = nat (tgt_samples_of is_pal mf n)"
        "\<forall>r \<in> set rs. - 50 \<le> r \<and> r \<le> 50"
    by blast
  have "map (\<lambda>r. to_int16 (np_clip (r * 500.0) (- 32000) 32000)) rs = map (\<lambda>r. py_int (r * 500.0)) rs"
    using rs(3) by (intro map_cong refl sample_bound(2)) auto
  then have "resample is_pal mf n acs = Inr (map (\<lambda>r. py_int (r * 500.0)) rs)"
    by (simp add: resample_def rs(1))
  moreover have "\<forall>r \<in> set rs. - 50 \<le> r \<and> r \<le> 50 \<and>
                              np_clip (r * 500.0) (- 32000) 32000 = r * 500.0 \<and>
                              \<bar>py_int (r * 500.0)\<bar> \<le> 25000"
    using rs(3) sample_bound(1) sample_bound(2) sample_bound(3) by metis
  ultimately show ?thesis using rs(1,2) by blast
qed

lemma length_extract_audio: "length (extract_audio is_pal chunk) = audio_len is_pal"
  by (simp add: extract_audio_def length_tap_array audio_len_def)

lemma raw_audio_of_taps:
  "raw_audio_of (map (\<lambda>i. extract_audio is_pal (f i)) ns) \<noteq> []"
proof (cases ns)
  case Nil
  then show ?thesis by (simp add: raw_audio_of_def)
next
  case (Cons a list)
  have "extract_audio is_pal (f a) \<noteq> []"
    using length_extract_audio [of is_pal "f a"] by (auto simp: audio_len_def split: if_splits)
  then show ?thesis using Cons by (simp add: raw_audio_of_def)
qed

lemma viz_of_channel_map: "viz_of (channel_map mc xs) = xs"
  by (simp add: viz_of_def channel_map_def map_idI)

lemma samples_of_channel_map: "set (samples_of (channel_map mc xs)) \<subseteq> set xs"
  by (auto simp: samples_of_def channel_map_def)

lemma load_total:
  "\<exists>rs. interp_audio is_pal mf (num_frames_of (read_raw file))
           (map (\<lambda>i. extract_audio is_pal (chunk_of (read_raw file) i))
              (py_range (num_frames_of (read_raw file)))) = Inr rs \<and>
        length rs = nat (tgt_samples_of is_pal mf (num_frames_of (read_raw file))) \<and>
        (\<forall>r \<in> set rs. - 50 \<le> r \<and> r \<le> 50 \<and>
                        np_clip (r * 500.0) (- 32000) 32000 = r * 500.0 \<and>
                        \<bar>py_int (r * 500.0)\<bar> \<le> 25000) \<and>
        load_process_full is_pal mf mc file =
          Inr (map (\<lambda>i. video_matrix (chunk_of (read_raw file) i)) (py_range (num_frames_of (read_raw file))),
               channel_map mc (map (\<lambda>r. py_int (r * 500.0)) rs),
               map (\<lambda>r. py_int (r * 500.0)) rs)"
proof -
  let ?n = "num_frames_of (read_raw file)"
  let ?acs = "map (\<lambda>i. extract_audio is_pal (chunk_of (read_raw file) i)) (py_range ?n)"
  have ne: "raw_audio_of ?acs \<noteq> []" by (rule raw_audio_of_taps)
  from resample_ok [OF ne, of is_pal mf ?n]
  obtain rs where rs: "interp_audio is_pal mf ?n ?acs = Inr rs"
      "resample is_pal mf ?n ?acs = Inr (map (\<lambda>r. py_int (r * 500.0)) rs)"
      "length rs = nat (tgt_samples_of is_pal mf ?n)"
      "\<forall>r \<in> set rs. - 50 \<le> r \<and> r \<le> 50 \<and>
         np_clip (r * 500.0) (- 32000) 32000 = r * 500.0 \<and> \<bar>py_int (r * 500.0)\<bar> \<le> 25000"
    by blast
  have "load_process_full is_pal mf mc file =
          Inr (map (\<lambda>i. video_matrix (chunk_of (read_raw file) i)) (py_range ?n),
               channel_map mc (map (\<lambda>r. py_int (r * 500.0)) rs),
               map (\<lambda>r. py_int (r * 500.0)) rs)"
    by (simp add: load_process_full_def demux_total rs(2) Let_def viz_of_channel_map)
  then show ?thesis using rs(1,3,4) by blast
qed


lemma live_tuning_sound:
  "self_viz_array (live_tuning math shift k p) = self_viz_array p \<and>
   self_final_sound_obj (live_tuning math shift k p) = self_final_sound_obj p \<and>
   self_video_frames (live_tuning math shift k p) = self_video_frames p"
  by (simp add: live_tuning_def Let_def)

lemma handle_key_sound:
  "self_viz_array (fst (handle_key now k st)) = self_viz_array (fst st) \<and>
   self_final_sound_obj (fst (handle_key now k st)) = self_final_sound_obj (fst st) \<and>
   self_video_frames (fst (handle_key now k st)) = self_video_frames (fst st)"
  by (cases st; cases k) (simp_all add: handle_key_def)

lemma handle_event_sound:
  "self_viz_array (fst (handle_event math ev st)) = self_viz_array (fst st) \<and>
   self_final_sound_obj (fst (handle_event math ev st)) = self_final_sound_obj (fst st) \<and>
   self_video_frames (fst (handle_event math ev st)) = self_video_frames (fst st)"
proof -
  obtain now shift e where ev: "ev = (now, shift, e)" by (cases ev) auto
  show ?thesis
  proof (cases e)
    case QUIT
    then show ?thesis by (simp add: handle_event_def ev)
  next
    case (KEYDOWN k)
    obtain p l where pl: "handle_key now k st = (p, l)" by force
    have "fst (handle_event math ev st) = live_tuning math shift k p"
      by (simp add: handle_event_def ev KEYDOWN pl)
    then show ?thesis
      using live_tuning_sound [of math shift k p] handle_key_sound [of now k st] by (simp add: pl)
  next
    case OTHER_EVENT
    then show ?thesis by (simp add: handle_event_def ev)
  qed
qed

lemma handle_events_sound:
  "self_viz_array (fst (handle_events math evs st)) = self_viz_array (fst st) \<and>
   self_final_sound_obj (fst (handle_events math evs st)) = self_final_sound_obj (fst st) \<and>
   self_video_frames (fst (handle_events math evs st)) = self_video_frames (fst st)"
  unfolding handle_events_def
proof (induction evs arbitrary: st)
  case Nil
  then show ?case by simp
next
  case (Cons ev evs)
  show ?case using Cons [of "handle_event math ev st"] handle_event_sound [of math ev st] by simp
qed

lemma fl64_1: "fl64 1 = 1"
  by (subst fl64_eval [where k = 52]) (simp_all add: round_even_def Let_def)

lemma fl64_321: "fl64 321 = 321"
  by (subst fl64_eval [where k = 44]) (simp_all add: round_even_def Let_def)

lemma fl64_44100: "fl64 44100 = 44100"
  by (subst fl64_eval [where k = 37]) (simp_all add: round_even_def Let_def)

lemma fps_pal: "fl64 49.86 = 7017171169396654 / 2 ^ 47"
  by (subst fl64_eval [where k = 47]) (simp_all add: round_even_def Let_def)

lemma fps_ntsc: "fl64 59.92 = 8432990302251254 / 2 ^ 47"
  by (subst fl64_eval [where k = 47]) (simp_all add: round_even_def Let_def)

lemma tgt_samples_1: "nat (tgt_samples_of True 44100 1) = 884"
proof -
  have a: "fl64 (1 / (7017171169396654 / 2 ^ 47)) = 5780793745521696 / 2 ^ 58"
    by (subst fl64_eval [where k = 58]) (simp_all add: round_even_def Let_def)
  have b: "fl64 (5780793745521696 / 2 ^ 58 * 44100) = 7779937871628015 / 2 ^ 43"
    by (subst fl64_eval [where k = 43]) (simp_all add: round_even_def Let_def)
  have c: "py_int (7779937871628015 / 2 ^ 43) = 884"
    by (simp add: py_int_def)
  have "tgt_samples_of True 44100 1 =
        py_int (fl64 (fl64 (fl64 1 / fl64 49.86) * fl64 44100))"
    by (simp add: tgt_samples_of_def fps_of_def)
  also have "\<dots> = 884"
    unfolding fl64_1 fl64_44100 fps_pal a b c by (rule refl)
  finally show ?thesis by simp
qed

lemma tgt_samples_321: "tgt_samples_of False 44100 321 = 236249"
proof -
  have a: "fl64 (321 / (8432990302251254 / 2 ^ 47)) = 6031606643799771 / 2 ^ 50"
    by (subst fl64_eval [where k = 50]) (simp_all add: round_even_def Let_def)
  have b: "fl64 (6031606643799771 / 2 ^ 50 * 44100) = 8117488189439999 / 2 ^ 35"
    by (subst fl64_eval [where k = 35]) (simp_all add: round_even_def Let_def)
  have c: "py_int (8117488189439999 / 2 ^ 35) = 236249"
    by (simp add: py_int_def)
  have "tgt_samples_of False 44100 321 =
        py_int (fl64 (fl64 (fl64 321 / fl64 59.92) * fl64 44100))"
    by (simp add: tgt_samples_of_def fps_of_def)
  also have "\<dots> = 236249"
    unfolding fl64_321 fl64_44100 fps_ntsc a b c by (rule refl)
  finally show ?thesis .
qed

lemma num_frames_321: "num_frames_of (read_raw (replicate 2793984 0)) = 321"
  by (simp add: read_raw_def num_frames_of_def FRAME_SIZE_BYTES_def)

lemma num_frames_8704: "num_frames_of (read_raw (replicate 8704 0)) = 1"
  by (simp add: read_raw_def num_frames_of_def FRAME_SIZE_BYTES_def)

subsection \<open>The length of the PCM track\<close>

text \<open>
  Claim C6. Loading succeeds, and the mono PCM track (the first channel of the sound
  array) has \<^verbatim>\<open>int((num_frames / fps) * mix_freq)\<close> samples, computed in doubles.
  When the product of the frame count and the sample rate is at most \<open>2 ^ 53\<close> (at
  44100 Hz: a file of less than 1.7 * 10 ^ 15 bytes), that length is within one sample
  of \<open>round((frame_count / fps) * output_sample_rate)\<close> over the real numbers, with
  \<open>fps\<close> 49.86 or 59.92. No sequence of input events (phase, saturation, toggles,
  pause, quit) changes the track or the sound array of a player built from the file.
\<close>

theorem pcm_track_length:
  "\<exists>video_frames final viz.
     load_process_full is_pal mix_freq mix_chans file = Inr (video_frames, final, viz) \<and>
     int (length viz) = tgt_samples_of is_pal mix_freq (length video_frames) \<and>
     (length video_frames * mix_freq \<le> 2 ^ 53 \<longrightarrow>
        \<bar>int (length viz) -
          round (real (length video_frames) / (if is_pal then 49.86 else 59.92) * real mix_freq)\<bar> \<le> 1) \<and>
     (\<forall>p l evs. init_player math file is_pal debug mix_freq mix_chans = Inr p \<longrightarrow>
        self_viz_array p = viz \<and>
        self_viz_array (fst (handle_events math evs (p, l))) = viz \<and>
        self_final_sound_obj (fst (handle_events math evs (p, l))) = final)"
proof -
  let ?n = "num_frames_of (read_raw file)"
  let ?vf = "map (\<lambda>i. video_matrix (chunk_of (read_raw file) i)) (py_range ?n)"
  let ?f = "if is_pal then 49.86 else 59.92 :: real"
  let ?p = "fl64 (fl64 (fl64 (real ?n) / fl64 ?f) * fl64 (real mix_freq))"
  from load_total [of is_pal mix_freq "file" mix_chans] obtain rs where
    rs: "length rs = nat (tgt_samples_of is_pal mix_freq ?n)"
    and ld: "load_process_full is_pal mix_freq mix_chans file =
          Inr (?vf, channel_map mix_chans (map (\<lambda>r. py_int (r * 500.0)) rs),
               map (\<lambda>r. py_int (r * 500.0)) rs)"
    by blast
  let ?viz = "map (\<lambda>r. py_int (r * 500.0)) rs"
  let ?final = "channel_map mix_chans ?viz"
  have n: "length ?vf = ?n" by (simp add: length_range)
  have len: "int (length ?viz) = tgt_samples_of is_pal mix_freq ?n"
    using rs tgt_samples_nonneg [of is_pal mix_freq ?n] by simp
  have fps: "fps_of is_pal = fl64 ?f" by (simp add: fps_of_def)
  have tgt: "tgt_samples_of is_pal mix_freq ?n = py_int ?p"
    unfolding tgt_samples_of_def Let_def fps by (rule refl)
  have rnd: "\<bar>int (length ?viz) - round (real ?n / ?f * real mix_freq)\<bar> \<le> 1"
    if b: "?n * mix_freq \<le> 2 ^ 53"
  proof -
    have "real (?n * mix_freq) \<le> real (2 ^ 53)"
      using b by (simp only: of_nat_le_iff)
    then have b': "real ?n * real mix_freq \<le> 2 ^ 53" by simp
    have f: "49 \<le> ?f" by simp
    have p0: "0 \<le> ?p"
      using vid_samples_nonneg [of ?n is_pal mix_freq] unfolding fps .
    have "\<bar>?p - real ?n / ?f * real mix_freq\<bar> \<le> 1 / 4"
      using b' f by (rule tgt_close)
    with p0 have "\<bar>py_int ?p - round (real ?n / ?f * real mix_freq)\<bar> \<le> 1"
      by (rule py_int_round_close)
    then show ?thesis unfolding len tgt .
  qed
  have ev: "self_viz_array p = ?viz \<and>
        self_viz_array (fst (handle_events math evs (p, l))) = ?viz \<and>
        self_final_sound_obj (fst (handle_events math evs (p, l))) = ?final"
    if "init_player math file is_pal debug mix_freq mix_chans = Inr p" for p l evs
  proof -
    from that have "self_viz_array p = ?viz" "self_final_sound_obj p = ?final"
      by (auto simp: init_player_def ld)
    then show ?thesis using handle_events_sound [of math evs "(p, l)"] by simp
  qed
  show ?thesis
  proof (intro exI conjI allI impI)
    show "load_process_full is_pal mix_freq mix_chans file = Inr (?vf, ?final, ?viz)" by (rule ld)
    show "int (length ?viz) = tgt_samples_of is_pal mix_freq (length ?vf)"
      unfolding n by (rule len)
    show "\<bar>int (length ?viz) - round (real (length ?vf) / ?f * real mix_freq)\<bar> \<le> 1"
      if "length ?vf * mix_freq \<le> 2 ^ 53"
      using that unfolding n by (rule rnd)
  qed (use ev in blast)+
qed

text \<open>
  The theorem at a file of 321 frames of zero bytes, for the 60 Hz standard and a mixer
  of 44100 Hz and 2 channels. The exact value of \<open>321 / 59.92 * 44100\<close> is 236250; in
  doubles the quotient is rounded down and the product is just below 236250, so the
  track has 236249 samples, also after three tuning events.
\<close>

theorem pcm_track_length_witness:
  "\<exists>p. init_player libm_rounded (replicate 2793984 0) False False 44100 2 = Inr p \<and>
       length (self_video_frames p) = 321 \<and>
       (321::nat) * 44100 \<le> 2 ^ 53 \<and>
       length (self_viz_array p) = 236249 \<and>
       round (321 / 59.92 * 44100 :: real) = 236250 \<and>
       length (self_viz_array (fst (handle_events libm_rounded
         [(0, False, KEYDOWN K_RIGHTBRACKET), (5, True, KEYDOWN K_LEFTBRACKET), (7, False, KEYDOWN K_b)]
         (p, \<lparr>running = True, loop_active = True, paused = False, start_ticks = 0, pause_start = 0\<rparr>)))) = 236249"
proof -
  let ?evs = "[(0, False, KEYDOWN K_RIGHTBRACKET), (5, True, KEYDOWN K_LEFTBRACKET), (7, False, KEYDOWN K_b)]"
  let ?l = "\<lparr>running = True, loop_active = True, paused = False, start_ticks = 0, pause_start = 0\<rparr>"
  let ?file = "replicate 2793984 (0::byte)"
  from pcm_track_length [of False 44100 2 ?file libm_rounded False] obtain video_frames final viz where
    ld: "load_process_full False 44100 2 ?file = Inr (video_frames, final, viz)"
    and len: "int (length viz) = tgt_samples_of False 44100 (length video_frames)"
    and rnd: "length video_frames * 44100 \<le> 2 ^ 53 \<longrightarrow>
        \<bar>int (length viz) -
          round (real (length video_frames) / (if False then 49.86 else 59.92) * real (44100::nat))\<bar> \<le> 1"
    and ev: "\<forall>p l evs. init_player libm_rounded ?file False False 44100 2 = Inr p \<longrightarrow>
        self_viz_array p = viz \<and>
        self_viz_array (fst (handle_events libm_rounded evs (p, l))) = viz \<and>
        self_final_sound_obj (fst (handle_events libm_rounded evs (p, l))) = final"
    by blast
  from load_total [of False 44100 ?file 2] ld have n: "length video_frames = 321"
    by (auto simp: num_frames_321 length_range)
  have b: "(321::nat) * 44100 \<le> 2 ^ 53" by simp
  have "int (length viz) = 236249"
    using len unfolding n tgt_samples_321 .
  then have l: "length viz = 236249" by simp
  have r: "round (321 / 59.92 * 44100 :: real) = 236250"
  proof -
    have "(321 / 59.92 * 44100 :: real) = of_int 236250" by simp
    then show ?thesis by (simp only: round_of_int)
  qed
  obtain p where p: "init_player libm_rounded ?file False False 44100 2 = Inr p"
    by (simp add: init_player_def ld)
  then have vf: "self_video_frames p = video_frames"
    by (auto simp: init_player_def ld)
  from ev p have "self_viz_array p = viz" "self_viz_array (fst (handle_events libm_rounded ?evs (p, ?l))) = viz"
    by blast+
  then show ?thesis using p l n b r vf by (intro exI [of _ p]) simp
qed

subsection \<open>The magnitude of the PCM samples\<close>

text \<open>
  Claim C10. Loading succeeds; every value of the interpolated, centred stream lies in
  \<open>[-50, 50]\<close>, so the clamp to \<open>[-32000, 32000]\<close> after the gain of 500 leaves it as
  it is, and every sample of the 16-bit sound array, in every channel, has a magnitude
  of at most 25000.
\<close>

theorem pcm_magnitude:
  "\<exists>video_frames audio_chunks resampled final viz.
     demux is_pal file = Inr (video_frames, audio_chunks) \<and>
     interp_audio is_pal mix_freq (length video_frames) audio_chunks = Inr resampled \<and>
     load_process_full is_pal mix_freq mix_chans file = Inr (video_frames, final, viz) \<and>
     (\<forall>x \<in> set (raw_audio_of audio_chunks). - 50 \<le> center x \<and> center x \<le> 50) \<and>
     (\<forall>r \<in> set resampled. - 50 \<le> r \<and> r \<le> 50 \<and>
                            np_clip (r * 500.0) (- 32000) 32000 = r * 500.0) \<and>
     viz = map (\<lambda>r. to_int16 (r * 500.0)) resampled \<and>
     (\<forall>s \<in> set viz. \<bar>s\<bar> \<le> 25000) \<and>
     (\<forall>s \<in> set (samples_of final). \<bar>s\<bar> \<le> 25000)"
proof -
  let ?n = "num_frames_of (read_raw file)"
  let ?vf = "map (\<lambda>i. video_matrix (chunk_of (read_raw file) i)) (py_range ?n)"
  let ?acs = "map (\<lambda>i. extract_audio is_pal (chunk_of (read_raw file) i)) (py_range ?n)"
  from load_total [of is_pal mix_freq "file" mix_chans] obtain rs where
    ia: "interp_audio is_pal mix_freq ?n ?acs = Inr rs"
    and b: "\<forall>r \<in> set rs. - 50 \<le> r \<and> r \<le> 50 \<and>
              np_clip (r * 500.0) (- 32000) 32000 = r * 500.0 \<and> \<bar>py_int (r * 500.0)\<bar> \<le> 25000"
    and ld: "load_process_full is_pal mix_freq mix_chans file =
          Inr (?vf, channel_map mix_chans (map (\<lambda>r. py_int (r * 500.0)) rs),
               map (\<lambda>r. py_int (r * 500.0)) rs)"
    by blast
  let ?viz = "map (\<lambda>r. py_int (r * 500.0)) rs"
  let ?final = "channel_map mix_chans ?viz"
  have n: "length ?vf = ?n" by (simp add: length_range)
  have vb: "\<forall>s \<in> set ?viz. \<bar>s\<bar> \<le> 25000" using b by auto
  have t: "?viz = map (\<lambda>r. to_int16 (r * 500.0)) rs"
  proof (intro map_cong refl)
    fix r assume "r \<in> set rs"
    then have r: "- 50 \<le> r" "r \<le> 50" using b by auto
    from sample_bound(1) [OF r] sample_bound(2) [OF r]
    show "py_int (r * 500.0) = to_int16 (r * 500.0)" by simp
  qed
  show ?thesis
  proof (intro exI conjI)
    show "demux is_pal file = Inr (?vf, ?acs)" by (rule demux_total)
    show "interp_audio is_pal mix_freq (length ?vf) ?acs = Inr rs" unfolding n by (rule ia)
    show "load_process_full is_pal mix_freq mix_chans file = Inr (?vf, ?final, ?viz)" by (rule ld)
    show "\<forall>x \<in> set (raw_audio_of ?acs). - 50 \<le> center x \<and> center x \<le> 50"
      using center_bounds by blast
    show "\<forall>r \<in> set rs. - 50 \<le> r \<and> r \<le> 50 \<and> np_clip (r * 500.0) (- 32000) 32000 = r * 500.0"
      using b by blast
    show "?viz = map (\<lambda>r. to_int16 (r * 500.0)) rs" by (rule t)
    show "\<forall>s \<in> set ?viz. \<bar>s\<bar> \<le> 25000" by (rule vb)
    show "\<forall>s \<in> set (samples_of ?final). \<bar>s\<bar> \<le> 25000"
      using vb samples_of_channel_map [of mix_chans ?viz] by blast
  qed
qed

text \<open>
  The theorem at a file of one frame of zero bytes, for the 50 Hz standard and a mixer
  of 44100 Hz and 2 channels: the track has 884 samples, and the first is in the range.
\<close>

theorem pcm_magnitude_witness:
  "\<exists>video_frames final viz.
     load_process_full True 44100 2 (replicate 8704 0) = Inr (video_frames, final, viz) \<and>
     length viz = 884 \<and> viz ! 0 \<in> set viz \<and> \<bar>viz ! 0\<bar> \<le> 25000 \<and>
     samples_of final \<noteq> [] \<and> \<bar>hd (samples_of final)\<bar> \<le> 25000"
proof -
  from pcm_magnitude [of True "replicate 8704 0" 44100 2] obtain video_frames final viz where
    ld: "load_process_full True 44100 2 (replicate 8704 0) = Inr (video_frames, final, viz)"
    and vb: "\<forall>s \<in> set viz. \<bar>s\<bar> \<le> 25000"
    and fb: "\<forall>s \<in> set (samples_of final). \<bar>s\<bar> \<le> 25000"
    by blast
  from load_total [of True 44100 "replicate 8704 0" 2] obtain rs where
    a: "length rs = nat (tgt_samples_of True 44100 (num_frames_of (read_raw (replicate 8704 0))))"
    and b: "load_process_full True 44100 2 (replicate 8704 0) =
          Inr (map (\<lambda>i. video_matrix (chunk_of (read_raw (replicate 8704 0)) i))
                 (py_range (num_frames_of (read_raw (replicate 8704 0)))),
               channel_map 2 (map (\<lambda>r. py_int (r * 500.0)) rs),
               map (\<lambda>r. py_int (r * 500.0)) rs)"
    by blast
  have rs: "length rs = 884" "viz = map (\<lambda>r. py_int (r * 500.0)) rs" "final = channel_map 2 viz"
    using a b ld unfolding num_frames_8704 tgt_samples_1 by simp_all
  have l: "length viz = 884" using rs by simp
  then have m: "viz ! 0 \<in> set viz" by (intro nth_mem) simp
  have ne: "viz \<noteq> []" using l by auto
  then have sne: "samples_of final \<noteq> []"
    by (cases viz) (simp_all add: rs(3) samples_of_def channel_map_def)
  then have "hd (samples_of final) \<in> set (samples_of final)" by simp
  then show ?thesis using ld l m vb fb sne by blast
qed

lemma palette_index_add:
  assumes "l < 16"
  shows "palette_index c l = 16 * c + l"
proof -
  have "\<not> bit (push_bit 4 c) n \<or> \<not> bit l n" for n
  proof (cases "4 \<le> n")
    case True
    have "(2::nat) ^ 4 \<le> 2 ^ n" using True by (intro power_increasing) simp_all
    then have "l < 2 ^ n" using assms by simp
    then have "l div 2 ^ n = 0" by simp
    then show ?thesis by (simp add: bit_iff_odd)
  next
    case False
    then show ?thesis by (simp add: bit_push_bit_iff)
  qed
  then have "push_bit 4 c + l = or (push_bit 4 c) l" by (rule disjunctive_add)
  then show ?thesis by (simp add: palette_index_def push_bit_eq_mult)
qed

lemma foldl_update_length:
  "length (foldl (\<lambda>p x. p[f x := g x]) p xs) = length p"
  by (induction xs arbitrary: p) simp_all

lemma foldl_update_other:
  "\<forall>x \<in> set xs. f x \<noteq> i \<Longrightarrow> foldl (\<lambda>p x. p[f x := g x]) p xs ! i = p ! i"
  by (induction xs arbitrary: p) simp_all

lemma foldl_update_nth:
  "distinct (map f xs) \<Longrightarrow> x \<in> set xs \<Longrightarrow> f x < length p \<Longrightarrow>
   foldl (\<lambda>p x. p[f x := g x]) p xs ! (f x) = g x"
proof (induction xs arbitrary: p)
  case Nil
  then show ?case by simp
next
  case (Cons a xs)
  show ?case
  proof (cases "x = a")
    case True
    have "\<forall>y \<in> set xs. f y \<noteq> f a" using Cons.prems(1) by (auto simp: image_iff)
    then have "foldl (\<lambda>p x. p[f x := g x]) (p[f a := g a]) xs ! (f a) = p[f a := g a] ! (f a)"
      by (rule foldl_update_other)
    then show ?thesis using True Cons.prems(3) by simp
  next
    case False
    then show ?thesis using Cons by simp
  qed
qed

lemma foldl_product:
  "foldl (\<lambda>p c. foldl (\<lambda>p l. h p c l) p ls) p cs =
   foldl (\<lambda>p cl. h p (fst cl) (snd cl)) p (List.product cs ls)"
proof (induction cs arbitrary: p)
  case Nil
  then show ?case by simp
next
  case (Cons c cs)
  have "foldl (\<lambda>p cl. h p (fst cl) (snd cl)) p (map (Pair c) ls) = foldl (\<lambda>p l. h p c l) p ls"
    by (induction ls arbitrary: p) simp_all
  then show ?case using Cons by simp
qed


lemma py_int_of_int: "py_int (real_of_int k) = k"
  by (simp add: py_int_def)

lemma gray_double:
  assumes "luma \<le> 15"
  shows "fl64 (fl64 (real luma / 15.0) * 255) = real (17 * luma)"
proof -
  from assms have "luma = 0 \<or> luma = 1 \<or> luma = 2 \<or> luma = 3 \<or> luma = 4 \<or> luma = 5 \<or> luma = 6 \<or> luma = 7 \<or> luma = 8 \<or> luma = 9 \<or> luma = 10 \<or> luma = 11 \<or> luma = 12 \<or> luma = 13 \<or> luma = 14 \<or> luma = 15"
    by presburger
  then consider "luma = 0" | "luma = 1" | "luma = 2" | "luma = 3" | "luma = 4" | "luma = 5" | "luma = 6" | "luma = 7" | "luma = 8" | "luma = 9" | "luma = 10" | "luma = 11" | "luma = 12" | "luma = 13" | "luma = 14" | "luma = 15"
    by blast
  then show ?thesis
  proof cases
    case 1
    then show ?thesis by (simp add: fl64_zero)
  next
    case 2
    have a: "fl64 (real (1::nat) / 15.0) = 4803839602528529 / 2 ^ 56"
      by (subst fl64_eval [where k = 56]) (simp_all add: round_even_def Let_def)
    have b: "fl64 (4803839602528529 / 2 ^ 56 * 255) = real (17 * (1::nat))"
      by (subst fl64_eval [where k = 48]) (simp_all add: round_even_def Let_def)
    show ?thesis unfolding 2 a b by (rule refl)
  next
    case 3
    have a: "fl64 (real (2::nat) / 15.0) = 4803839602528529 / 2 ^ 55"
      by (subst fl64_eval [where k = 55]) (simp_all add: round_even_def Let_def)
    have b: "fl64 (4803839602528529 / 2 ^ 55 * 255) = real (17 * (2::nat))"
      by (subst fl64_eval [where k = 47]) (simp_all add: round_even_def Let_def)
    show ?thesis unfolding 3 a b by (rule refl)
  next
    case 4
    have a: "fl64 (real (3::nat) / 15.0) = 7205759403792794 / 2 ^ 55"
      by (subst fl64_eval [where k = 55]) (simp_all add: round_even_def Let_def)
    have b: "fl64 (7205759403792794 / 2 ^ 55 * 255) = real (17 * (3::nat))"
      by (subst fl64_eval [where k = 47]) (simp_all add: round_even_def Let_def)
    show ?thesis unfolding 4 a b by (rule refl)
  next
    case 5
    have a: "fl64 (real (4::nat) / 15.0) = 4803839602528529 / 2 ^ 54"
      by (subst fl64_eval [where k = 54]) (simp_all add: round_even_def Let_def)
    have b: "fl64 (4803839602528529 / 2 ^ 54 * 255) = real (17 * (4::nat))"
      by (subst fl64_eval [where k = 46]) (simp_all add: round_even_def Let_def)
    show ?thesis unfolding 5 a b by (rule refl)
  next
    case 6
    have a: "fl64 (real (5::nat) / 15.0) = 6004799503160661 / 2 ^ 54"
      by (subst fl64_eval [where k = 54]) (simp_all add: round_even_def Let_def)
    have b: "fl64 (6004799503160661 / 2 ^ 54 * 255) = real (17 * (5::nat))"
      by (subst fl64_eval [where k = 46]) (simp_all add: round_even_def Let_def)
    show ?thesis unfolding 6 a b by (rule refl)
  next
    case 7
    have a: "fl64 (real (6::nat) / 15.0) = 7205759403792794 / 2 ^ 54"
      by (subst fl64_eval [where k = 54]) (simp_all add: round_even_def Let_def)
    have b: "fl64 (7205759403792794 / 2 ^ 54 * 255) = real (17 * (6::nat))"
      by (subst fl64_eval [where k = 46]) (simp_all add: round_even_def Let_def)
    show ?thesis unfolding 7 a b by (rule refl)
  next
    case 8
    have a: "fl64 (real (7::nat) / 15.0) = 8406719304424926 / 2 ^ 54"
      by (subst fl64_eval [where k = 54]) (simp_all add: round_even_def Let_def)
    have b: "fl64 (8406719304424926 / 2 ^ 54 * 255) = real (17 * (7::nat))"
      by (subst fl64_eval [where k = 46]) (simp_all add: round_even_def Let_def)
    show ?thesis unfolding 8 a b by (rule refl)
  next
    case 9
    have a: "fl64 (real (8::nat) / 15.0) = 4803839602528529 / 2 ^ 53"
      by (subst fl64_eval [where k = 53]) (simp_all add: round_even_def Let_def)
    have b: "fl64 (4803839602528529 / 2 ^ 53 * 255) = real (17 * (8::nat))"
      by (subst fl64_eval [where k = 45]) (simp_all add: round_even_def Let_def)
    show ?thesis unfolding 9 a b by (rule refl)
  next
    case 10
    have a: "fl64 (real (9::nat) / 15.0) = 5404319552844595 / 2 ^ 53"
      by (subst fl64_eval [where k = 53]) (simp_all add: round_even_def Let_def)
    have b: "fl64 (5404319552844595 / 2 ^ 53 * 255) = real (17 * (9::nat))"
      by (subst fl64_eval [where k = 45]) (simp_all add: round_even_def Let_def)
    show ?thesis unfolding 10 a b by (rule refl)
  next
    case 11
    have a: "fl64 (real (10::nat) / 15.0) = 6004799503160661 / 2 ^ 53"
      by (subst fl64_eval [where k = 53]) (simp_all add: round_even_def Let_def)
    have b: "fl64 (6004799503160661 / 2 ^ 53 * 255) = real (17 * (10::nat))"
      by (subst fl64_eval [where k = 45]) (simp_all add: round_even_def Let_def)
    show ?thesis unfolding 11 a b by (rule refl)
  next
    case 12
    have a: "fl64 (real (11::nat) / 15.0) = 6605279453476727 / 2 ^ 53"
      by (subst fl64_eval [where k = 53]) (simp_all add: round_even_def Let_def)
    have b: "fl64 (6605279453476727 / 2 ^ 53 * 255) = real (17 * (11::nat))"
      by (subst fl64_eval [where k = 45]) (simp_all add: round_even_def Let_def)
    show ?thesis unfolding 12 a b by (rule refl)
  next
    case 13
    have a: "fl64 (real (12::nat) / 15.0) = 7205759403792794 / 2 ^ 53"
      by (subst fl64_eval [where k = 53]) (simp_all add: round_even_def Let_def)
    have b: "fl64 (7205759403792794 / 2 ^ 53 * 255) = real (17 * (12::nat))"
      by (subst fl64_eval [where k = 45]) (simp_all add: round_even_def Let_def)
    show ?thesis unfolding 13 a b by (rule refl)
  next
    case 14
    have a: "fl64 (real (13::nat) / 15.0) = 7806239354108860 / 2 ^ 53"
      by (subst fl64_eval [where k = 53]) (simp_all add: round_even_def Let_def)
    have b: "fl64 (7806239354108860 / 2 ^ 53 * 255) = real (17 * (13::nat))"
      by (subst fl64_eval [where k = 45]) (simp_all add: round_even_def Let_def)
    show ?thesis unfolding 14 a b by (rule refl)
  next
    case 15
    have a: "fl64 (real (14::nat) / 15.0) = 8406719304424926 / 2 ^ 53"
      by (subst fl64_eval [where k = 53]) (simp_all add: round_even_def Let_def)
    have b: "fl64 (8406719304424926 / 2 ^ 53 * 255) = real (17 * (14::nat))"
      by (subst fl64_eval [where k = 45]) (simp_all add: round_even_def Let_def)
    show ?thesis unfolding 15 a b by (rule refl)
  next
    case 16
    have a: "fl64 (real (15::nat) / 15.0) = 4503599627370496 / 2 ^ 52"
      by (subst fl64_eval [where k = 52]) (simp_all add: round_even_def Let_def)
    have b: "fl64 (4503599627370496 / 2 ^ 52 * 255) = real (17 * (15::nat))"
      by (subst fl64_eval [where k = 45]) (simp_all add: round_even_def Let_def)
    show ?thesis unfolding 16 a b by (rule refl)
  qed
qed

lemma gtia_gray_value:
  assumes "luma \<le> 15"
  shows "gtia_gray luma = (17 * int luma, 17 * int luma, 17 * int luma)"
proof -
  have "real (17 * luma) = real_of_int (17 * int luma)" by simp
  then have "py_int (fl64 (fl64 (real luma / 15.0) * 255)) = 17 * int luma"
    unfolding gray_double [OF assms] by (simp only: py_int_of_int)
  then show ?thesis by (simp only: gtia_gray_def Let_def)
qed

lemma generate_gtia_palette_flat:
  "generate_gtia_palette math ph sat =
     color_loops math ph sat
       (foldl (\<lambda>palette luma. palette[luma := gtia_gray luma]) (replicate 256 (0, 0, 0)) (py_range 16))"
  unfolding generate_gtia_palette_def Let_def color_loops_def
  by (rule foldl_product [where h = "\<lambda>p c l. p[palette_index c l := gtia_color math ph sat c l]"])

lemma product_index_distinct:
  "distinct (map (\<lambda>cl. palette_index (fst cl) (snd cl)) (List.product [1..<16] (py_range 16)))"
proof -
  have inj: "inj_on (\<lambda>cl. palette_index (fst cl) (snd cl)) (set (List.product [1..<16] (py_range 16)))"
  proof (rule inj_onI)
    fix x y assume x: "x \<in> set (List.product [1..<16] (py_range 16))"
      and y: "y \<in> set (List.product [1..<16] (py_range 16))"
      and e: "palette_index (fst x) (snd x) = palette_index (fst y) (snd y)"
    have lx: "snd x < 16" and ly: "snd y < 16" using x y by (auto simp: set_range)
    from e have "16 * fst x + snd x = 16 * fst y + snd y"
      by (simp only: palette_index_add [OF lx] palette_index_add [OF ly])
    then have "fst x = fst y \<and> snd x = snd y" using lx ly by arith
    then show "x = y" by (simp add: prod_eq_iff)
  qed
  have "distinct (List.product [1..<16] (py_range 16))"
    by (intro distinct_product) (simp_all add: distinct_range)
  then show ?thesis using inj by (simp add: distinct_map)
qed

lemma palette_length: "length (generate_gtia_palette math ph sat) = 256"
  by (simp add: generate_gtia_palette_flat color_loops_def foldl_update_length)

lemma palette_color_entry:
  assumes "1 \<le> chroma" "chroma \<le> 15" "luma \<le> 15"
  shows "generate_gtia_palette math ph sat ! palette_index chroma luma =
         gtia_color math ph sat chroma luma"
proof -
  let ?p1 = "foldl (\<lambda>palette luma. palette[luma := gtia_gray luma]) (replicate 256 (0, 0, 0)) (py_range 16)"
  have mem: "(chroma, luma) \<in> set (List.product [1..<16] (py_range 16))"
    using assms by (simp add: set_range)
  have "palette_index chroma luma = 16 * chroma + luma"
    using assms by (intro palette_index_add) simp
  then have lt: "palette_index (fst (chroma, luma)) (snd (chroma, luma)) < length ?p1"
    using assms by (simp add: foldl_update_length)
  from foldl_update_nth [where f = "\<lambda>cl. palette_index (fst cl) (snd cl)"
      and g = "\<lambda>cl. gtia_color math ph sat (fst cl) (snd cl)", OF product_index_distinct mem lt]
  show ?thesis by (simp add: generate_gtia_palette_flat color_loops_def)
qed

lemma palette_gray_entry:
  assumes "luma \<le> 15"
  shows "generate_gtia_palette math ph sat ! luma = gtia_gray luma"
proof -
  let ?p0 = "replicate 256 (0, 0, 0) :: rgb list"
  let ?p1 = "foldl (\<lambda>palette luma. palette[luma := gtia_gray luma]) ?p0 (py_range 16)"
  have other: "\<forall>cl \<in> set (List.product [1..<16] (py_range 16)). palette_index (fst cl) (snd cl) \<noteq> luma"
  proof
    fix cl assume cl: "cl \<in> set (List.product [1..<16] (py_range 16))"
    then have l: "snd cl < 16" and c: "1 \<le> fst cl" by (auto simp: set_range)
    show "palette_index (fst cl) (snd cl) \<noteq> luma"
      using assms c by (simp add: palette_index_add [OF l])
  qed
  have "generate_gtia_palette math ph sat ! luma = ?p1 ! luma"
    unfolding generate_gtia_palette_flat color_loops_def using other by (rule foldl_update_other)
  also have "?p1 ! luma = gtia_gray luma"
    using assms
    by (intro foldl_update_nth [where f = "\<lambda>l. l" and g = gtia_gray and x = luma])
       (simp_all add: distinct_range set_range)
  finally show ?thesis .
qed


subsection \<open>The grey entries of the palette\<close>

text \<open>
  Claim C7. For every phase shift and saturation and every luma in 0..15, the palette
  entry at index \<open>luma\<close> (chroma 0) is the grey triple \<open>(v, v, v)\<close> with
  \<open>v = round(luma / 15 * 255) = 17 * luma\<close>, whatever the phase shift, the saturation
  and the cosine and sine of the library: in doubles \<^verbatim>\<open>(luma / 15.0) * 255\<close> is
  \<open>17 * luma\<close> for each of the 16 lumas.
\<close>

theorem palette_gray:
  assumes "luma \<le> 15"
  shows "generate_gtia_palette math phase_shift saturation ! luma =
           (round (real luma / 15 * 255), round (real luma / 15 * 255), round (real luma / 15 * 255)) \<and>
         palette_index 0 luma = luma \<and>
         generate_gtia_palette math phase_shift saturation ! luma =
           generate_gtia_palette math' phase_shift' saturation' ! luma"
proof -
  have "real luma / 15 * 255 = real_of_int (17 * int luma)" by simp
  then have r: "round (real luma / 15 * 255) = 17 * int luma"
    by (simp only: round_of_int)
  have i: "palette_index 0 luma = luma"
    using assms by (simp add: palette_index_add)
  show ?thesis
    using assms by (simp only: r i palette_gray_entry gtia_gray_value)
qed

text \<open>The theorem at luma 7, for the default tuning and for another one.\<close>

theorem palette_gray_witness:
  "(7::nat) \<le> 15 \<and>
   generate_gtia_palette libm_rounded (fl64 1.8) (fl64 0.15) ! 7 = (119, 119, 119) \<and>
   generate_gtia_palette libm_rounded (fl64 1.8) (fl64 0.15) ! 7 =
     generate_gtia_palette libm_rounded 0 2 ! 7"
  using palette_gray [of 7 libm_rounded "fl64 1.8" "fl64 0.15" libm_rounded 0 2] by auto

subsection \<open>The colour entries of the palette\<close>

text \<open>
  Claim C3, as amended. For every chroma in 1..15, luma in 0..15, every phase shift and
  saturation and every cosine and sine of the library, the palette entry at index
  \<open>(chroma << 4) | luma = 16 * chroma + luma\<close> is the triple obtained in doubles from
  \<open>angle = (chroma - 1) * (2 * pi / 15) + phase_shift\<close>, \<open>y = luma / 15\<close>,
  \<open>sat = saturation * 0.5\<close>, \<open>u = sat * cos angle\<close>, \<open>v = sat * sin angle\<close>,
  \<open>r = y + 1.140 * v\<close>, \<open>g = y - 0.395 * u - 0.581 * v\<close>, \<open>b = y + 2.032 * u\<close> by
  scaling each of \<open>r\<close>, \<open>g\<close>, \<open>b\<close> by 255, truncating towards zero (\<^verbatim>\<open>int(...)\<close>) and
  clamping to \<open>[0, 255]\<close>: every operation is rounded to the nearest double, and the
  last step truncates where the claim rounds.
\<close>

theorem palette_color:
  assumes "1 \<le> chroma" "chroma \<le> 15" "luma \<le> 15"
  shows "palette_index chroma luma = 16 * chroma + luma \<and>
         generate_gtia_palette math phase_shift saturation ! palette_index chroma luma =
           (let angle = fl64 (fl64 ((real chroma - 1) * fl64 (fl64 (2 * fl64 pi) / 15))
                              + phase_shift);
                y = fl64 (real luma / 15);
                sat = fl64 (saturation * 0.5);
                u = fl64 (sat * math_cos math angle);
                v = fl64 (sat * math_sin math angle);
                r = fl64 (y + fl64 (fl64 1.140 * v));
                g = fl64 (fl64 (y - fl64 (fl64 0.395 * u)) - fl64 (fl64 0.581 * v));
                b = fl64 (y + fl64 (fl64 2.032 * u))
            in (max 0 (min 255 (py_int (fl64 (r * 255)))),
                max 0 (min 255 (py_int (fl64 (g * 255)))),
                max 0 (min 255 (py_int (fl64 (b * 255))))))"
proof
  show "palette_index chroma luma = 16 * chroma + luma"
    using assms by (intro palette_index_add) simp
  show "generate_gtia_palette math phase_shift saturation ! palette_index chroma luma =
           (let angle = fl64 (fl64 ((real chroma - 1) * fl64 (fl64 (2 * fl64 pi) / 15))
                              + phase_shift);
                y = fl64 (real luma / 15);
                sat = fl64 (saturation * 0.5);
                u = fl64 (sat * math_cos math angle);
                v = fl64 (sat * math_sin math angle);
                r = fl64 (y + fl64 (fl64 1.140 * v));
                g = fl64 (fl64 (y - fl64 (fl64 0.395 * u)) - fl64 (fl64 0.581 * v));
                b = fl64 (y + fl64 (fl64 2.032 * u))
            in (max 0 (min 255 (py_int (fl64 (r * 255)))),
                max 0 (min 255 (py_int (fl64 (g * 255)))),
                max 0 (min 255 (py_int (fl64 (b * 255))))))"
    unfolding palette_color_entry [OF assms] by (simp add: gtia_color_def Let_def)
qed

text \<open>
  The entry for chroma 1 and luma 0 at phase shift 0 and saturation 0.5, with a cosine
  and a sine that are exact at 0 (\<open>cos 0 = 1\<close>, \<open>sin 0 = 0\<close>): the angle and \<open>v\<close> are
  0, \<open>sat = u = 0.25\<close>, and the doubles of the chain are evaluated one by one. The
  double of 0.395 is \<open>7115687411245384 / 2 ^ 54\<close> and the one of 2.032 is
  \<open>4575657221408424 / 2 ^ 51\<close>; a quarter of each is a double again, and the products
  with 255 are rounded to the doubles next to \<open>-25.18125\<close> and \<open>129.54\<close>.
\<close>

lemma double_quarter: "fl64 (1 / 4) = 1 / 4"
  by (subst fl64_eval [where k = 54]) (simp_all add: round_even_def Let_def)

lemma double_0395: "fl64 (79 / 200) = 7115687411245384 / 2 ^ 54"
  by (subst fl64_eval [where k = 54]) (simp_all add: round_even_def Let_def)

lemma double_2032: "fl64 (254 / 125) = 4575657221408424 / 2 ^ 51"
  by (subst fl64_eval [where k = 51]) (simp_all add: round_even_def Let_def)

lemma double_0395_quarter:
  "fl64 (889460926405673 / 9007199254740992) = 889460926405673 / 9007199254740992"
  by (subst fl64_eval [where k = 56]) (simp_all add: round_even_def Let_def)

lemma double_0395_quarter_neg:
  "fl64 (- (889460926405673 / 9007199254740992)) = - (889460926405673 / 9007199254740992)"
  by (subst fl64_eval [where k = 56]) (simp_all add: round_even_def Let_def)

lemma double_2032_quarter:
  "fl64 (571957152676053 / 1125899906842624) = 571957152676053 / 1125899906842624"
  by (subst fl64_eval [where k = 53]) (simp_all add: round_even_def Let_def)

lemma double_green_255:
  "fl64 (- (226812536233446615 / 9007199254740992)) = - (7087891757295207 / 2 ^ 48)"
  by (subst fl64_eval [where k = 48]) (simp_all add: round_even_def Let_def)

lemma double_blue_255:
  "fl64 (145849073932393515 / 1125899906842624) = 4557783560387297 / 2 ^ 45"
  by (subst fl64_eval [where k = 45]) (simp_all add: round_even_def Let_def)

lemmas double_chain = fl64_zero fl64_1 double_quarter double_0395 double_2032
  double_0395_quarter double_0395_quarter_neg double_2032_quarter double_green_255
  double_blue_255

lemma gtia_color_example: "gtia_color libm_rounded 0 (1 / 2) 1 0 = (0, 0, 129)"
  by (simp add: gtia_color_def Let_def libm_rounded_def double_chain py_int_def)

text \<open>The theorem at chroma 1, luma 0, phase shift 0 and saturation 0.5.\<close>

theorem palette_color_witness:
  "(1::nat) \<le> 1 \<and> (1::nat) \<le> 15 \<and> (0::nat) \<le> 15 \<and>
   palette_index 1 0 = 16 \<and> generate_gtia_palette libm_rounded 0 (1 / 2) ! 16 = (0, 0, 129)"
proof -
  have a: "(1::nat) \<le> 1" "(1::nat) \<le> 15" "(0::nat) \<le> 15" by simp_all
  note t = palette_color [OF a, of libm_rounded 0 "1 / 2"]
  have i: "palette_index 1 0 = 16"
    using t [THEN conjunct1] by simp
  have e: "generate_gtia_palette libm_rounded 0 (1 / 2) ! palette_index 1 0 = (0, 0, 129)"
    using t [THEN conjunct2] by (simp add: Let_def libm_rounded_def double_chain py_int_def)
  from e have "generate_gtia_palette libm_rounded 0 (1 / 2) ! 16 = (0, 0, 129)"
    by (simp only: i)
  then show ?thesis using i by simp
qed

text \<open>
  Claim C3 as stated fails at chroma 1, luma 0, phase shift 0 and saturation 0.5: the
  angle is 0, so \<open>u = 0.25\<close>, \<open>v = 0\<close> and \<open>b * 255 = 129.54\<close>; the table holds 129 for
  the blue channel, and rounding gives 130.
\<close>

theorem palette_color_counterexample:
  "generate_gtia_palette libm_rounded 0 (1 / 2) ! palette_index 1 0 = (0, 0, 129) \<and>
   spec_color 0 (1 / 2) 1 0 = (0, 0, 130)"
proof -
  have "generate_gtia_palette libm_rounded 0 (1 / 2) ! palette_index 1 0 =
        gtia_color libm_rounded 0 (1 / 2) 1 0"
    by (intro palette_color_entry) simp_all
  moreover have "spec_color 0 (1 / 2) 1 0 = (0, 0, 130)"
    by (simp add: spec_color_def Let_def round_def)
  ultimately show ?thesis by (simp only: gtia_color_example)
qed

lemma length_evens: "length (evens xs) = (length xs + 1) div 2"
  by (induction xs rule: evens.induct) simp_all

lemma set_evens: "set (evens xs) \<subseteq> set xs"
  by (induction xs rule: evens.induct) auto

lemma length_odds: "length (odds xs) = length xs div 2"
  by (simp add: odds_def length_evens)

lemma set_odds: "set (odds xs) \<subseteq> set xs"
  using set_evens [of "drop 1 xs"] set_drop_subset [of 1 xs] by (auto simp: odds_def)

lemma length_repeat2: "length (repeat2 row) = 2 * length row"
  by (induction row) (simp_all add: repeat2_def)

lemma unpack_nibbles_ok:
  assumes "\<forall>row \<in> set lines. length row = 40"
  shows "\<exists>u. unpack_nibbles lines = Inr u \<and> length u = length lines \<and>
             (\<forall>r < length u. length (u ! r) = 80)"
proof -
  have len: "length (concat (map (\<lambda>b. [f b, g b]) row)) = 2 * length row"
    for f g :: "byte \<Rightarrow> nat" and row
    by (induction row) simp_all
  show ?thesis
    using assms by (simp add: unpack_nibbles_def list_all_iff len)
qed

lemma blend_row_eq:
  assumes "row \<noteq> []"
  shows "blend_row row =
         Inr (row ! 0 # map2 (\<lambda>p q. pixel_scale (pixel_add p q) 0.5) (drop 1 row) (butlast row))"
proof -
  obtain x xs where row: "row = x # xs" using assms by (cases row) auto
  show ?thesis
    by (simp add: blend_row_def Let_def row)
qed

lemma blend_row_nth:
  assumes "blend_row row = Inr out"
  shows "length out = length row \<and> out ! 0 = row ! 0 \<and>
         (\<forall>i. 0 < i \<and> i < length row \<longrightarrow>
              out ! i = pixel_scale (pixel_add (row ! i) (row ! (i - 1))) 0.5)"
proof (intro conjI allI impI)
  have ne: "row \<noteq> []"
  proof
    assume "row = []"
    then have "blend_row row = Inl IndexError" by (simp add: blend_row_def)
    then show False using assms by simp
  qed
  let ?m = "map2 (\<lambda>p q. pixel_scale (pixel_add p q) 0.5) (drop 1 row) (butlast row)"
  have out: "out = row ! 0 # ?m"
    using assms unfolding blend_row_eq [OF ne] by simp
  show "length out = length row"
    unfolding out using ne by simp
  show "out ! 0 = row ! 0"
    unfolding out by simp
  fix i assume i: "0 < i \<and> i < length row"
  then obtain j where j: "i = Suc j" using gr0_implies_Suc by blast
  have jl: "j < length row - 1" using i j by simp
  have "?m ! j = pixel_scale (pixel_add (drop 1 row ! j) (butlast row ! j)) 0.5"
    using jl by simp
  moreover have "drop 1 row ! j = row ! Suc j" using jl by simp
  moreover have "butlast row ! j = row ! j"
    using jl by (simp add: nth_butlast)
  ultimately have "?m ! j = pixel_scale (pixel_add (row ! Suc j) (row ! j)) 0.5"
    by (simp only:)
  then show "out ! i = pixel_scale (pixel_add (row ! i) (row ! (i - 1))) 0.5"
    unfolding out j by simp
qed

lemma blend_rows_ok:
  assumes "\<forall>row \<in> set rows. row \<noteq> []"
  shows "\<exists>out. blend_rows rows = Inr out \<and> length out = length rows \<and>
               (\<forall>r < length rows. blend_row (rows ! r) = Inr (out ! r))"
  using assms
proof (induction rows)
  case Nil
  then show ?case by simp
next
  case (Cons row rows)
  then obtain out where out: "blend_rows rows = Inr out" "length out = length rows"
      "\<forall>r < length rows. blend_row (rows ! r) = Inr (out ! r)"
    by auto
  have "row \<noteq> []" using Cons.prems by simp
  then obtain b where b: "blend_row row = Inr b" by (simp add: blend_row_eq)
  have "\<forall>r < length (row # rows). blend_row ((row # rows) ! r) = Inr ((b # out) ! r)"
    using out(3) b by (auto simp: nth_Cons split: nat.splits)
  then show ?case using out(1,2) b by simp
qed


lemma rgb_wide_of_ok:
  assumes "length vf = 192" "\<forall>row \<in> set vf. length row = 40"
  shows "\<exists>w. rgb_wide_of palette is_pal vf = Inr w \<and> length w = 96 \<and>
             (\<forall>r < 96. length (w ! r) = 160)"
proof -
  let ?c = "if is_pal then evens vf else odds vf"
  let ?l = "if is_pal then odds vf else evens vf"
  have lc: "length ?c = 96" and ll: "length ?l = 96"
    using assms(1) by (simp_all add: length_evens length_odds)
  have h: "min (length ?c) (length ?l) = 96" unfolding lc ll by simp
  have sub: "set ?c \<subseteq> set vf" "set ?l \<subseteq> set vf"
    using set_evens [of vf] set_odds [of vf] by simp_all
  have c40: "\<forall>row \<in> set (take 96 ?c). length row = 40"
    using assms(2) sub(1) by (meson in_set_takeD subsetD)
  have l40: "\<forall>row \<in> set (take 96 ?l). length row = 40"
    using assms(2) sub(2) by (meson in_set_takeD subsetD)
  from unpack_nibbles_ok [OF c40] obtain cu where
    cu: "unpack_nibbles (take 96 ?c) = Inr cu" "length cu = 96" "\<forall>r < length cu. length (cu ! r) = 80"
    using lc by auto
  from unpack_nibbles_ok [OF l40] obtain lu where
    lu: "unpack_nibbles (take 96 ?l) = Inr lu" "length lu = 96" "\<forall>r < length lu. length (lu ! r) = 80"
    using ll by auto
  let ?w = "map repeat2 (map (map to_float32) (decode_frame_gtia palette lu cu))"
  have w: "rgb_wide_of palette is_pal vf = Inr ?w"
    unfolding rgb_wide_of_def Let_def h by (simp only: cu(1) lu(1) sum.case)
  have len: "length ?w = 96"
    using cu(2) lu(2) by (simp add: decode_frame_gtia_def)
  have "length (?w ! r) = 160" if "r < 96" for r
    using that cu lu by (simp add: decode_frame_gtia_def length_repeat2)
  then show ?thesis using w len by blast
qed

subsection \<open>The horizontal blend\<close>

text \<open>
  Claim C9. For a frame of 192 rows of 40 bytes, and with the blending enabled, the
  decoded and horizontally upscaled picture has 96 rows of 160 pixels and so has the
  blended one; in every row, column 0 of the output is column 0 of the input, and for
  every column \<open>i > 0\<close> each channel of the output is the mean of that channel in the
  columns \<open>i\<close> and \<open>i - 1\<close> of the input.
\<close>

theorem horizontal_blend:
  assumes "length vf = 192" "\<forall>row \<in> set vf. length row = 40"
  shows "\<exists>rgb_wide blended.
           rgb_wide_of palette is_pal vf = Inr rgb_wide \<and>
           render_blend palette is_pal True vf = Inr blended \<and>
           length rgb_wide = 96 \<and> length blended = 96 \<and>
           (\<forall>r < 96. length (rgb_wide ! r) = 160 \<and> length (blended ! r) = 160 \<and>
              blended ! r ! 0 = rgb_wide ! r ! 0 \<and>
              (\<forall>i. 0 < i \<and> i < 160 \<longrightarrow>
                 fst (blended ! r ! i) = (fst (rgb_wide ! r ! i) + fst (rgb_wide ! r ! (i - 1))) / 2 \<and>
                 fst (snd (blended ! r ! i)) =
                   (fst (snd (rgb_wide ! r ! i)) + fst (snd (rgb_wide ! r ! (i - 1)))) / 2 \<and>
                 snd (snd (blended ! r ! i)) =
                   (snd (snd (rgb_wide ! r ! i)) + snd (snd (rgb_wide ! r ! (i - 1)))) / 2))"
proof -
  from rgb_wide_of_ok [OF assms, of palette is_pal] obtain w where
    w: "rgb_wide_of palette is_pal vf = Inr w" "length w = 96" "\<forall>r < 96. length (w ! r) = 160"
    by blast
  have "\<forall>row \<in> set w. row \<noteq> []"
  proof
    fix row assume "row \<in> set w"
    then obtain r where "r < length w" "row = w ! r" by (auto simp: in_set_conv_nth)
    then have "length row = 160" using w(2,3) by simp
    then show "row \<noteq> []" by auto
  qed
  from blend_rows_ok [OF this] obtain out where
    out: "blend_rows w = Inr out" "length out = 96" "\<forall>r < 96. blend_row (w ! r) = Inr (out ! r)"
    using w(2) by auto
  have rb: "render_blend palette is_pal True vf = Inr out"
    by (simp add: render_blend_def w(1) out(1))
  have row: "length (w ! r) = 160 \<and> length (out ! r) = 160 \<and> out ! r ! 0 = w ! r ! 0 \<and>
      (\<forall>i. 0 < i \<and> i < 160 \<longrightarrow>
         fst (out ! r ! i) = (fst (w ! r ! i) + fst (w ! r ! (i - 1))) / 2 \<and>
         fst (snd (out ! r ! i)) = (fst (snd (w ! r ! i)) + fst (snd (w ! r ! (i - 1)))) / 2 \<and>
         snd (snd (out ! r ! i)) = (snd (snd (w ! r ! i)) + snd (snd (w ! r ! (i - 1)))) / 2)"
    if r: "r < 96" for r
  proof -
    have l: "length (w ! r) = 160" using w(3) r by simp
    from blend_row_nth [of "w ! r" "out ! r"] out(3) r
    have b: "length (out ! r) = length (w ! r)" "out ! r ! 0 = w ! r ! 0"
      "\<forall>i. 0 < i \<and> i < length (w ! r) \<longrightarrow>
           out ! r ! i = pixel_scale (pixel_add (w ! r ! i) (w ! r ! (i - 1))) 0.5"
      by simp_all
    have "fst (out ! r ! i) = (fst (w ! r ! i) + fst (w ! r ! (i - 1))) / 2 \<and>
         fst (snd (out ! r ! i)) = (fst (snd (w ! r ! i)) + fst (snd (w ! r ! (i - 1)))) / 2 \<and>
         snd (snd (out ! r ! i)) = (snd (snd (w ! r ! i)) + snd (snd (w ! r ! (i - 1)))) / 2"
      if "0 < i" "i < 160" for i
    proof -
      have "out ! r ! i = pixel_scale (pixel_add (w ! r ! i) (w ! r ! (i - 1))) 0.5"
        using b(3) that l by simp
      then show ?thesis
        by (simp add: pixel_scale_def pixel_add_def split: prod.splits)
    qed
    then show ?thesis using l b(1,2) by simp
  qed
  have rows: "\<forall>r < 96. length (w ! r) = 160 \<and> length (out ! r) = 160 \<and> out ! r ! 0 = w ! r ! 0 \<and>
      (\<forall>i. 0 < i \<and> i < 160 \<longrightarrow>
         fst (out ! r ! i) = (fst (w ! r ! i) + fst (w ! r ! (i - 1))) / 2 \<and>
         fst (snd (out ! r ! i)) = (fst (snd (w ! r ! i)) + fst (snd (w ! r ! (i - 1)))) / 2 \<and>
         snd (snd (out ! r ! i)) = (snd (snd (w ! r ! i)) + snd (snd (w ! r ! (i - 1)))) / 2)"
    by (intro allI impI row)
  show ?thesis
    by (intro exI [of _ w] exI [of _ out] conjI w(1) w(2) out(2) rb rows)
qed


text \<open>
  The theorem at a frame of 192 rows of 40 zero bytes, with the default palette and
  the 50 Hz standard: row 0, columns 0 and 1.
\<close>

theorem horizontal_blend_witness:
  "length (replicate 192 (replicate 40 (0::byte))) = 192 \<and>
   (\<exists>rgb_wide blended.
      rgb_wide_of (generate_gtia_palette libm_rounded (fl64 1.8) (fl64 0.15)) True (replicate 192 (replicate 40 0)) = Inr rgb_wide \<and>
      render_blend (generate_gtia_palette libm_rounded (fl64 1.8) (fl64 0.15)) True True (replicate 192 (replicate 40 0)) = Inr blended \<and>
      length (blended ! 0) = 160 \<and>
      blended ! 0 ! 0 = rgb_wide ! 0 ! 0 \<and>
      fst (blended ! 0 ! 1) = (fst (rgb_wide ! 0 ! 1) + fst (rgb_wide ! 0 ! 0)) / 2)"
proof -
  let ?vf = "replicate 192 (replicate 40 (0::byte))"
  have a: "length ?vf = 192" "\<forall>row \<in> set ?vf. length row = 40" by simp_all
  from horizontal_blend [OF a, of "generate_gtia_palette libm_rounded (fl64 1.8) (fl64 0.15)" True]
  obtain w b where
    w: "rgb_wide_of (generate_gtia_palette libm_rounded (fl64 1.8) (fl64 0.15)) True ?vf = Inr w"
    and b: "render_blend (generate_gtia_palette libm_rounded (fl64 1.8) (fl64 0.15)) True True ?vf = Inr b"
    and rows: "\<forall>r < 96. length (w ! r) = 160 \<and> length (b ! r) = 160 \<and> b ! r ! 0 = w ! r ! 0 \<and>
      (\<forall>i. 0 < i \<and> i < 160 \<longrightarrow>
         fst (b ! r ! i) = (fst (w ! r ! i) + fst (w ! r ! (i - 1))) / 2 \<and>
         fst (snd (b ! r ! i)) = (fst (snd (w ! r ! i)) + fst (snd (w ! r ! (i - 1)))) / 2 \<and>
         snd (snd (b ! r ! i)) = (snd (snd (w ! r ! i)) + snd (snd (w ! r ! (i - 1)))) / 2)"
    by blast
  from rows [rule_format, of 0] have r0: "length (b ! 0) = 160" "b ! 0 ! 0 = w ! 0 ! 0"
    and c: "\<forall>i. 0 < i \<and> i < 160 \<longrightarrow>
         fst (b ! 0 ! i) = (fst (w ! 0 ! i) + fst (w ! 0 ! (i - 1))) / 2 \<and>
         fst (snd (b ! 0 ! i)) = (fst (snd (w ! 0 ! i)) + fst (snd (w ! 0 ! (i - 1)))) / 2 \<and>
         snd (snd (b ! 0 ! i)) = (snd (snd (w ! 0 ! i)) + snd (snd (w ! 0 ! (i - 1)))) / 2"
    by simp_all
  from c [rule_format, of 1] have "fst (b ! 0 ! 1) = (fst (w ! 0 ! 1) + fst (w ! 0 ! 0)) / 2"
    by simp
  then show ?thesis using a(1) w b r0 by blast
qed

end
